theory Spec2Isabelle
  imports Complex_Main
begin

section \<open>Angle arithmetic of the plot widget\<close>

text \<open>
  The class \<open>SNOM_GRAPH\<close> of \<open>Oldgraph.h\<close> carries four inline helpers that work on
  angles: \<open>constrainAngle\<close>, \<open>angleConv\<close>, \<open>angleDiff\<close> and \<open>unwrap\<close>. They are
  embedded line by line, in two readings.

  This section reads them in exact arithmetic: \<open>double\<close> is \<^typ>\<open>real\<close>, every
  addition and subtraction is exact, and the constant \<open>M_PI\<close> of \<open>cmath\<close> is the number
  \<^term>\<open>pi\<close>. That is what the helpers compute as long as no operation rounds. The
  next section reads them in double precision, with the rounding of every operation,
  the double that \<open>M_PI\<close> really is, and overflow. What holds of all finite inputs is
  settled on the second reading; the first serves the phase trace and the equation
  between \<open>angleConv\<close> and \<open>constrainAngle\<close>, which come out the same in both.
\<close>

definition M_PI :: real where
  "M_PI = pi"

text \<open>
  \<open>fmod x y\<close> of the C library is \<open>x - n * y\<close>, where \<open>n\<close> is the quotient \<open>x / y\<close>
  with its fractional part cut off (rounded towards zero), so the result carries the
  sign of \<open>x\<close>. The source calls it with the divisor \<open>2 * M_PI\<close> only, which is not
  zero; for a zero divisor the C function yields NaN, while this definition yields \<open>x\<close>.
\<close>

definition trunc :: "real \<Rightarrow> int" where
  "trunc r = (if 0 \<le> r then \<lfloor>r\<rfloor> else \<lceil>r\<rceil>)"

definition fmod :: "real \<Rightarrow> real \<Rightarrow> real" where
  "fmod x y = x - of_int (trunc (x / y)) * y"

text \<open>
  \<^verbatim>\<open>x = fmod(x + M_PI,2*M_PI); if (x < 0) x += 2*M_PI; return x - M_PI;\<close>
\<close>

definition constrainAngle :: "real \<Rightarrow> real" where
  "constrainAngle x0 =
     (let x = fmod (x0 + M_PI) (2 * M_PI);
          x = (if x < 0 then x + 2 * M_PI else x)
      in x - M_PI)"

text \<open>\<^verbatim>\<open>return fmod(constrainAngle(angle),2*M_PI);\<close>\<close>

definition angleConv :: "real \<Rightarrow> real" where
  "angleConv angle = fmod (constrainAngle angle) (2 * M_PI)"

text \<open>
  \<^verbatim>\<open>double dif = fmod(b - a + M_PI,2*M_PI); if (dif < 0) dif += 2*M_PI; return dif - M_PI;\<close>
\<close>

definition angleDiff :: "real \<Rightarrow> real \<Rightarrow> real" where
  "angleDiff a b =
     (let dif = fmod (b - a + M_PI) (2 * M_PI);
          dif = (if dif < 0 then dif + 2 * M_PI else dif)
      in dif - M_PI)"

text \<open>\<^verbatim>\<open>return previousAngle - angleDiff(newAngle,angleConv(previousAngle));\<close>\<close>

definition unwrap :: "real \<Rightarrow> real \<Rightarrow> real" where
  "unwrap previousAngle newAngle =
     previousAngle - angleDiff newAngle (angleConv previousAngle)"

text \<open>
  Modelled from the spec: the loop that unwraps a phase trace belongs to \<open>drawGraph\<close>,
  whose body is not part of the header. The spec describes it as \<open>unwrap\<close> applied from
  left to right over the samples, the first raw sample being taken as it is and every
  later sample being unwrapped against the output before it.
\<close>

fun unwrapFrom :: "real \<Rightarrow> real list \<Rightarrow> real list" where
  "unwrapFrom prev [] = []"
| "unwrapFrom prev (y # ys) = unwrap prev y # unwrapFrom (unwrap prev y) ys"

fun unwrapSeq :: "real list \<Rightarrow> real list" where
  "unwrapSeq [] = []"
| "unwrapSeq (y # ys) = y # unwrapFrom y ys"

text \<open>Every two neighbours of a trace are less than \<open>d\<close> apart.\<close>

fun stepsBelow :: "real \<Rightarrow> real list \<Rightarrow> bool" where
  "stepsBelow d (a # b # rest) = (\<bar>b - a\<bar> < d \<and> stepsBelow d (b # rest))"
| "stepsBelow d _ = True"

section \<open>The angle arithmetic in double precision\<close>

text \<open>
  A finite \<open>double\<close> is a real number of the form \<open>m * 2^e\<close> with an integer \<open>m\<close> below
  \<open>2^53\<close> in magnitude and \<open>-1074 \<le> e \<le> 971\<close> (IEEE 754 binary64, with subnormal
  numbers). An addition or subtraction delivers the exact result rounded to the nearest
  such number, a tie going to the one with the even \<open>m\<close>; this is the default rounding
  mode, and each operation is taken to round once, to \<open>double\<close>.

  \<open>binade x\<close> is the exponent of the power of two at or below \<open>\<bar>x\<bar>\<close>, and \<open>ulp x\<close> is
  the distance between neighbouring doubles around \<open>x\<close>.
\<close>

definition binade :: "real \<Rightarrow> int" where
  "binade x = \<lfloor>log 2 \<bar>x\<bar>\<rfloor>"

definition ulpExp :: "real \<Rightarrow> int" where
  "ulpExp x = (if x = 0 then - 1074 else max (binade x - 52) (- 1074))"

definition ulp :: "real \<Rightarrow> real" where
  "ulp x = 2 powi ulpExp x"

text \<open>Rounding to the nearest integer, a tie going to the even one.\<close>

definition roundEven :: "real \<Rightarrow> int" where
  "roundEven r =
     (let f = \<lfloor>r\<rfloor>; d = r - of_int f
      in if d < 1 / 2 then f
         else if 1 / 2 < d then f + 1
         else if even f then f else f + 1)"

text \<open>The nearest number on the grid of doubles around \<open>x\<close>, the exponent range unbounded above.\<close>

definition rnd :: "real \<Rightarrow> real" where
  "rnd x = of_int (roundEven (x / ulp x)) * ulp x"

text \<open>\<open>grid j a\<close>: the number \<open>a\<close> is a whole multiple of \<open>2^j\<close>.\<close>

definition grid :: "int \<Rightarrow> real \<Rightarrow> bool" where
  "grid j a = (a / 2 powi j \<in> \<int>)"

text \<open>The largest finite double, \<open>DBL_MAX\<close> of \<open>cfloat\<close>.\<close>

definition DBL_MAX :: real where
  "DBL_MAX = (2 ^ 53 - 1) * 2 ^ 971"

text \<open>
  The value an operation delivers for the exact result \<open>x\<close>. When the rounded result
  exceeds \<open>DBL_MAX\<close> the operation overflows to an infinity; \<open>None\<close> stands for every
  value that is not finite, an infinity or NaN. In the four helpers such a value never
  becomes finite again: \<open>fmod\<close> of an infinity is NaN, a comparison with NaN is false,
  and NaN plus or minus a number is NaN. So a \<open>None\<close> is passed on as it is.
\<close>

definition toDouble :: "real \<Rightarrow> real option" where
  "toDouble x = (if \<bar>rnd x\<bar> \<le> DBL_MAX then Some (rnd x) else None)"

text \<open>The finite doubles: the reals that rounding leaves alone, up to \<open>DBL_MAX\<close>.\<close>

definition isDouble :: "real \<Rightarrow> bool" where
  "isDouble x = (rnd x = x \<and> \<bar>x\<bar> \<le> DBL_MAX)"

definition add_dbl :: "real \<Rightarrow> real \<Rightarrow> real option" where
  "add_dbl x y = toDouble (x + y)"

definition sub_dbl :: "real \<Rightarrow> real \<Rightarrow> real option" where
  "sub_dbl x y = toDouble (x - y)"

text \<open>
  The constant \<open>M_PI\<close> is the double nearest to \<open>\<pi>\<close>, which is
  \<open>884279719003555 / 2^48\<close>, about \<open>1.2 \<cdot> 10^-16\<close> below \<open>\<pi>\<close>. The product \<open>2*M_PI\<close>
  of the source is exact. \<open>fmod\<close> is exact as well: the remainder of two doubles is a
  double, so the definition of the exact reading serves here too.
\<close>

definition M_PI_dbl :: real where
  "M_PI_dbl = 884279719003555 / 281474976710656"

text \<open>\<^verbatim>\<open>if (x < 0) x += 2*M_PI;\<close>\<close>

definition wrap_dbl :: "real \<Rightarrow> real option" where
  "wrap_dbl x = (if x < 0 then add_dbl x (2 * M_PI_dbl) else Some x)"

text \<open>
  \<^verbatim>\<open>x = fmod(x + M_PI,2*M_PI); if (x < 0) x += 2*M_PI; return x - M_PI;\<close>
\<close>

definition constrainAngle_dbl :: "real \<Rightarrow> real option" where
  "constrainAngle_dbl x0 =
     Option.bind (add_dbl x0 M_PI_dbl) (\<lambda>x.
     Option.bind (wrap_dbl (fmod x (2 * M_PI_dbl))) (\<lambda>x.
     sub_dbl x M_PI_dbl))"

text \<open>\<^verbatim>\<open>return fmod(constrainAngle(angle),2*M_PI);\<close>\<close>

definition angleConv_dbl :: "real \<Rightarrow> real option" where
  "angleConv_dbl angle =
     Option.bind (constrainAngle_dbl angle) (\<lambda>c. Some (fmod c (2 * M_PI_dbl)))"

text \<open>
  \<^verbatim>\<open>double dif = fmod(b - a + M_PI,2*M_PI); if (dif < 0) dif += 2*M_PI; return dif - M_PI;\<close>
  The sum \<open>b - a + M_PI\<close> is evaluated from the left, each of its two operations rounding.
\<close>

definition angleDiff_dbl :: "real \<Rightarrow> real \<Rightarrow> real option" where
  "angleDiff_dbl a b =
     Option.bind (sub_dbl b a) (\<lambda>d.
     Option.bind (add_dbl d M_PI_dbl) (\<lambda>s.
     Option.bind (wrap_dbl (fmod s (2 * M_PI_dbl))) (\<lambda>dif.
     sub_dbl dif M_PI_dbl)))"

text \<open>\<^verbatim>\<open>return previousAngle - angleDiff(newAngle,angleConv(previousAngle));\<close>\<close>

definition unwrap_dbl :: "real \<Rightarrow> real \<Rightarrow> real option" where
  "unwrap_dbl previousAngle newAngle =
     Option.bind (angleConv_dbl previousAngle) (\<lambda>c.
     Option.bind (angleDiff_dbl newAngle c) (\<lambda>d.
     sub_dbl previousAngle d))"


section \<open>The plot registry\<close>

text \<open>
  The header declares the lookup table, \<^verbatim>\<open>QVector<QUuid> _lookupTable\<close>, which
  "stores the uid of all graphs in the order they are plotted in the plotting backend",
  and the members \<open>addLine\<close>, \<open>removeLine\<close> and \<open>removeItem\<close> that work on it; their
  bodies are not part of the header. The table is a list of dataset ids, and a slot is a
  position in that list.
\<close>

text \<open>
  The position of the first occurrence of an element, as \<open>QVector::indexOf\<close> finds it;
  \<open>None\<close> stands for its result \<open>-1\<close>.
\<close>

fun indexOf :: "'a \<Rightarrow> 'a list \<Rightarrow> nat option" where
  "indexOf x [] = None"
| "indexOf x (y # ys) = (if y = x then Some 0 else map_option Suc (indexOf x ys))"

text \<open>
  Modelled from the spec: \<open>slotFor(id)\<close> and \<open>idFor(slot)\<close> of the PlotRegistry, which
  translate between a dataset id and its slot, each with a not-found result. Their code
  is missing from the header.
\<close>

definition slotFor :: "'id \<Rightarrow> 'id list \<Rightarrow> nat option" where
  "slotFor i tbl = indexOf i tbl"

definition idFor :: "nat \<Rightarrow> 'id list \<Rightarrow> 'id option" where
  "idFor slot tbl = (if slot < length tbl then Some (tbl ! slot) else None)"

text \<open>
  Modelled from the spec: \<open>assignSlot(id)\<close>, the registry half of \<open>addLine\<close>, whose body
  is missing. It "appends id to the LookupTable if not already present; returns existing
  slot if already present". The result is the slot together with the table afterwards.
\<close>

definition assignSlot :: "'id \<Rightarrow> 'id list \<Rightarrow> nat \<times> 'id list" where
  "assignSlot i tbl =
     (case slotFor i tbl of
        Some slot \<Rightarrow> (slot, tbl)
      | None \<Rightarrow> (length tbl, tbl @ [i]))"

text \<open>
  Modelled from the spec: \<open>releaseSlot(id)\<close>, the registry half of \<open>removeLine\<close>, whose
  body is missing. It "removes id from the LookupTable, shifting all subsequent slots
  down by one to preserve contiguity; fails silently (no-op) if id is not present".
\<close>

definition releaseSlot :: "'id \<Rightarrow> 'id list \<Rightarrow> 'id list" where
  "releaseSlot i tbl =
     (case slotFor i tbl of
        None \<Rightarrow> tbl
      | Some slot \<Rightarrow> take slot tbl @ drop (Suc slot) tbl)"

text \<open>A sequence of calls to the registry, run from left to right on a table.\<close>

datatype 'id registry_call = AssignSlot 'id | ReleaseSlot 'id

fun registryCall :: "'id registry_call \<Rightarrow> 'id list \<Rightarrow> 'id list" where
  "registryCall (AssignSlot i) tbl = snd (assignSlot i tbl)"
| "registryCall (ReleaseSlot i) tbl = releaseSlot i tbl"

fun registryCalls :: "'id registry_call list \<Rightarrow> 'id list \<Rightarrow> 'id list" where
  "registryCalls [] tbl = tbl"
| "registryCalls (c # cs) tbl = registryCalls cs (registryCall c tbl)"

text \<open>
  The datasets on display after a sequence of calls, kept as a plain set: an assignment
  puts the id on display, a release takes it off. This is the reference the table is
  compared with; it knows nothing of slots or order.
\<close>

fun displayedAfter :: "'id registry_call list \<Rightarrow> 'id set \<Rightarrow> 'id set" where
  "displayedAfter [] shown = shown"
| "displayedAfter (AssignSlot i # cs) shown = displayedAfter cs (insert i shown)"
| "displayedAfter (ReleaseSlot i # cs) shown = displayedAfter cs (shown - {i})"

text \<open>
  The slots that \<open>slotFor\<close> hands out. Only an id of the table has a slot, so the ids
  of the table are the ones to ask.
\<close>

definition occupiedSlots :: "'id list \<Rightarrow> nat set" where
  "occupiedSlots tbl = set (List.map_filter (\<lambda>i. slotFor i tbl) tbl)"

section \<open>Removing an item\<close>

text \<open>
  The part of the widget state that \<open>removeItem\<close> touches: the lookup table and the lines
  the plotting backend holds, in slot order. The type of a rendered line is left open.
\<close>

record ('id, 'ln) plot =
  lookupTable :: "'id list"
  graphs :: "'ln list"

text \<open>
  Modelled from the spec: \<open>removeItem(id)\<close>, declared in the header without a body. It
  "releases the slot and removes the visual line", and for an id that is not registered
  it "is a no-op, not a fatal error". The rescaling that follows a removal concerns the
  axis ranges only, which are not part of this state.
\<close>

definition removeItem :: "'id \<Rightarrow> ('id, 'ln) plot \<Rightarrow> ('id, 'ln) plot" where
  "removeItem i st =
     (case slotFor i (lookupTable st) of
        None \<Rightarrow> st
      | Some slot \<Rightarrow>
          st\<lparr>lookupTable := releaseSlot i (lookupTable st),
             graphs := take slot (graphs st) @ drop (Suc slot) (graphs st)\<rparr>)"

section \<open>Dragging a range marker\<close>

text \<open>
  The header keeps the drag in two fields, \<open>dragged\<close> ("the currently dragged element")
  and \<open>draggedY\<close> ("whether the dragging process is done along x or y axis"), and
  declares the handlers \<open>handleMousePress\<close>, \<open>handleMouseMove\<close> and
  \<open>handleMouseRelease\<close> without bodies. The spec names the two fields together
  \<open>Idle\<close> (nothing is dragged) and \<open>Dragging(markerIndex, axis)\<close>.
\<close>

datatype axis = AxisX | AxisY

datatype DragState = Idle | Dragging nat axis

text \<open>A pointer event with the pointer's position projected on the two axes.\<close>

datatype pointer_event = PointerDown real real | PointerMove real real | PointerUp real real

record overlay =
  drag :: DragState
  markers :: "real list"
  xRange :: "real \<times> real"
  yRange :: "real \<times> real"

definition coordOn :: "axis \<Rightarrow> real \<Rightarrow> real \<Rightarrow> real" where
  "coordOn a x y = (case a of AxisX \<Rightarrow> x | AxisY \<Rightarrow> y)"

definition rangeOf :: "axis \<Rightarrow> overlay \<Rightarrow> real \<times> real" where
  "rangeOf a s = (case a of AxisX \<Rightarrow> xRange s | AxisY \<Rightarrow> yRange s)"

definition clampTo :: "real \<times> real \<Rightarrow> real \<Rightarrow> real" where
  "clampTo r v = max (fst r) (min (snd r) v)"

text \<open>
  The first marker whose coordinate is within the tolerance of the pointer, measured
  on the axis the marker is bound to.
\<close>

definition hitTest :: "(nat \<Rightarrow> axis) \<Rightarrow> real \<Rightarrow> real list \<Rightarrow> real \<Rightarrow> real \<Rightarrow> nat option" where
  "hitTest axisOf tol ms x y =
     find (\<lambda>m. \<bar>coordOn (axisOf m) x y - ms ! m\<bar> \<le> tol) [0..<length ms]"

text \<open>
  Modelled from the spec: the three pointer handlers, whose bodies are missing, as the
  transitions of section 4.4. A pointer-down in \<open>Idle\<close> over a marker starts a drag of
  that marker along its axis; a pointer-move while dragging sets the marker to the
  pointer's coordinate on that axis, clamped to the visible range; a pointer-up ends the
  drag. The axis each marker is bound to and the hit-test tolerance are parameters, as
  the spec leaves both open.
\<close>

fun dragStep :: "(nat \<Rightarrow> axis) \<Rightarrow> real \<Rightarrow> pointer_event \<Rightarrow> overlay \<Rightarrow> overlay" where
  "dragStep axisOf tol (PointerDown x y) s =
     (case drag s of
        Dragging m a \<Rightarrow> s
      | Idle \<Rightarrow>
          (case hitTest axisOf tol (markers s) x y of
             Some m \<Rightarrow> s\<lparr>drag := Dragging m (axisOf m)\<rparr>
           | None \<Rightarrow> s))"
| "dragStep axisOf tol (PointerMove x y) s =
     (case drag s of
        Idle \<Rightarrow> s
      | Dragging m a \<Rightarrow>
          s\<lparr>markers := (markers s)[m := clampTo (rangeOf a s) (coordOn a x y)]\<rparr>)"
| "dragStep axisOf tol (PointerUp x y) s = s\<lparr>drag := Idle\<rparr>"


section \<open>Properties of the angle arithmetic in exact arithmetic\<close>

subsection \<open>From the truncated to the floored remainder\<close>

text \<open>
  Both \<open>constrainAngle\<close> and \<open>angleDiff\<close> repair the sign of \<open>fmod\<close> by adding the
  divisor to a negative remainder. That turns the truncated remainder into the floored
  one, which is what the rest of the development reasons with.
\<close>

lemma fmod_wrap_floor:
  assumes "0 < y"
  shows "(if fmod x y < 0 then fmod x y + y else fmod x y) = x - of_int \<lfloor>x / y\<rfloor> * y"
proof -
  define q where "q = x / y"
  have f: "fmod x y = x - of_int (trunc q) * y"
    by (simp add: fmod_def q_def)
  have "x - of_int (trunc q) * y = (q - of_int (trunc q)) * y"
    using assms by (simp add: q_def algebra_simps)
  then have neg: "fmod x y < 0 \<longleftrightarrow> q < of_int (trunc q)"
    using assms by (simp add: f mult_less_0_iff)
  have goal: "(if fmod x y < 0 then fmod x y + y else fmod x y) = x - of_int \<lfloor>q\<rfloor> * y"
  proof (cases "0 \<le> q")
    case True
    then have t: "trunc q = \<lfloor>q\<rfloor>" by (simp add: trunc_def)
    have "\<not> q < of_int \<lfloor>q\<rfloor>" by linarith
    then have "\<not> fmod x y < 0" using neg t by simp
    then show ?thesis using f t by simp
  next
    case False
    then have t: "trunc q = \<lceil>q\<rceil>" by (simp add: trunc_def)
    show ?thesis
    proof (cases "q = of_int \<lfloor>q\<rfloor>")
      case True
      then have c: "\<lceil>q\<rceil> = \<lfloor>q\<rfloor>" by (simp add: ceiling_altdef)
      have "\<not> q < of_int \<lfloor>q\<rfloor>" by linarith
      then have "\<not> fmod x y < 0" using neg t c by simp
      then show ?thesis using f t c by simp
    next
      case nonint: False
      then have c: "\<lceil>q\<rceil> = \<lfloor>q\<rfloor> + 1" by (simp add: ceiling_altdef)
      have "q < of_int \<lceil>q\<rceil>" using nonint c by linarith
      with t neg have "fmod x y < 0" by simp
      then show ?thesis using f t c by (simp add: algebra_simps)
    qed
  qed
  then show ?thesis by (simp only: q_def)
qed

lemma floor_wrap_range:
  assumes "0 < y"
  shows "0 \<le> x - of_int \<lfloor>x / y\<rfloor> * y" and "x - of_int \<lfloor>x / y\<rfloor> * y < y"
proof -
  have "of_int \<lfloor>x / y\<rfloor> * y \<le> (x / y) * y"
    by (rule mult_right_mono) (use assms in simp_all)
  then have "of_int \<lfloor>x / y\<rfloor> * y \<le> x" using assms by simp
  then show "0 \<le> x - of_int \<lfloor>x / y\<rfloor> * y" by simp
  have "x / y < of_int \<lfloor>x / y\<rfloor> + 1" by linarith
  then have "(x / y) * y < (of_int \<lfloor>x / y\<rfloor> + 1) * y"
    using assms by (simp only: mult_less_cancel_right_pos)
  then have "x < (of_int \<lfloor>x / y\<rfloor> + 1) * y" using assms by simp
  then show "x - of_int \<lfloor>x / y\<rfloor> * y < y" by (simp add: algebra_simps)
qed

lemma fmod_small:
  assumes "0 < y" "\<bar>x\<bar> < y"
  shows "fmod x y = x"
proof -
  have "-1 < x / y" "x / y < 1"
    using assms by (simp_all add: pos_less_divide_eq pos_divide_less_eq)
  then have "trunc (x / y) = 0" unfolding trunc_def by (auto; linarith)
  then show ?thesis by (simp add: fmod_def)
qed

lemma two_M_PI_pos: "0 < 2 * M_PI"
  by (simp add: M_PI_def)

lemma constrainAngle_floor:
  "constrainAngle x = x - of_int \<lfloor>(x + M_PI) / (2 * M_PI)\<rfloor> * (2 * M_PI)"
  using fmod_wrap_floor [OF two_M_PI_pos, of "x + M_PI"]
  by (simp add: constrainAngle_def Let_def)

lemma angleDiff_constrainAngle: "angleDiff a b = constrainAngle (b - a)"
  by (simp add: angleDiff_def constrainAngle_def)

lemma constrainAngle_bounds: "- M_PI \<le> constrainAngle x" "constrainAngle x < M_PI"
  using floor_wrap_range [OF two_M_PI_pos, of "x + M_PI"]
  by (simp_all add: constrainAngle_floor)

text \<open>
  An angle that is brought into the range by a whole number of turns is the value of
  \<open>constrainAngle\<close>.
\<close>

lemma constrainAngle_eqI:
  assumes "- M_PI \<le> x - of_int k * (2 * M_PI)" "x - of_int k * (2 * M_PI) < M_PI"
  shows "constrainAngle x = x - of_int k * (2 * M_PI)"
proof -
  let ?t = "2 * M_PI"
  have "of_int k * ?t \<le> x + M_PI" using assms(1) by simp
  then have lo: "of_int k \<le> (x + M_PI) / ?t"
    using two_M_PI_pos by (simp only: pos_le_divide_eq)
  have "x + M_PI < (of_int k + 1) * ?t" using assms(2) by (simp add: algebra_simps)
  then have hi: "(x + M_PI) / ?t < of_int k + 1"
    using two_M_PI_pos by (simp only: pos_divide_less_eq)
  from lo hi have "\<lfloor>(x + M_PI) / ?t\<rfloor> = k" by linarith
  then show ?thesis by (simp add: constrainAngle_floor)
qed

lemma constrainAngle_fixed:
  assumes "- M_PI \<le> x" "x < M_PI"
  shows "constrainAngle x = x"
  using constrainAngle_eqI [of x 0] assms by simp

lemma angleConv_floor:
  "angleConv x = x - of_int \<lfloor>(x + M_PI) / (2 * M_PI)\<rfloor> * (2 * M_PI)"
proof -
  have "\<bar>constrainAngle x\<bar> < 2 * M_PI"
    using constrainAngle_bounds [of x] two_M_PI_pos by linarith
  then have "fmod (constrainAngle x) (2 * M_PI) = constrainAngle x"
    by (rule fmod_small [OF two_M_PI_pos])
  then show ?thesis by (simp add: angleConv_def constrainAngle_floor)
qed


subsection \<open>The outer remainder of \<open>angleConv\<close>\<close>

text \<open>
  Claim C10. For every real \<open>x\<close>, \<open>angleConv x\<close> equals \<open>constrainAngle x\<close>: the outer
  \<open>fmod\<close> by \<open>2\<pi>\<close> in \<open>angleConv\<close> leaves every value of \<open>constrainAngle\<close> as it is.
\<close>

theorem angleConv_eq_constrainAngle:
  "angleConv x = constrainAngle x"
proof -
  have "\<bar>constrainAngle x\<bar> < 2 * M_PI"
    using constrainAngle_bounds [of x] two_M_PI_pos by linarith
  then show ?thesis
    unfolding angleConv_def by (rule fmod_small [OF two_M_PI_pos])
qed


section \<open>Properties of the registry\<close>

lemma indexOf_None_iff: "indexOf x xs = None \<longleftrightarrow> x \<notin> set xs"
  by (induction xs) auto

lemma indexOf_Some_nth: "indexOf x xs = Some n \<Longrightarrow> n < length xs \<and> xs ! n = x"
  by (induction xs arbitrary: n) (auto split: if_splits)

lemma indexOf_nth_distinct: "distinct xs \<Longrightarrow> n < length xs \<Longrightarrow> indexOf (xs ! n) xs = Some n"
proof (induction xs arbitrary: n)
  case Nil
  then show ?case by simp
next
  case (Cons y ys)
  show ?case
  proof (cases n)
    case 0
    then show ?thesis by simp
  next
    case (Suc k)
    with Cons.prems have "k < length ys" "distinct ys" "y \<notin> set ys" by simp_all
    then have "indexOf (ys ! k) ys = Some k" "ys ! k \<noteq> y"
      using Cons.IH [of k] by auto
    then show ?thesis using Suc by auto
  qed
qed

text \<open>In a table without duplicates the two lookups are inverse to each other.\<close>

lemma idFor_slotFor:
  "distinct tbl \<Longrightarrow> idFor slot tbl = Some i \<longleftrightarrow> slotFor i tbl = Some slot"
  unfolding idFor_def slotFor_def
  using indexOf_Some_nth [of i tbl slot] indexOf_nth_distinct [of tbl slot] by auto

lemma releaseSlot_remove1: "releaseSlot x xs = remove1 x xs"
proof (induction xs)
  case Nil
  show ?case by (simp add: releaseSlot_def slotFor_def)
next
  case (Cons y ys)
  then show ?case
    by (cases "indexOf x ys") (auto simp: releaseSlot_def slotFor_def)
qed

lemma table_after_assignSlot:
  "snd (assignSlot x xs) = (if x \<in> set xs then xs else xs @ [x])"
  by (cases "indexOf x xs")
    (auto simp: assignSlot_def slotFor_def indexOf_None_iff [symmetric])

lemma registryCall_distinct: "distinct tbl \<Longrightarrow> distinct (registryCall c tbl)"
  by (cases c) (simp_all add: table_after_assignSlot releaseSlot_remove1)

lemma registryCall_set:
  "distinct tbl \<Longrightarrow> set (registryCall c tbl) = displayedAfter [c] (set tbl)"
  by (cases c) (auto simp: table_after_assignSlot releaseSlot_remove1)

lemma displayedAfter_step:
  "displayedAfter (c # cs) shown = displayedAfter cs (displayedAfter [c] shown)"
  by (cases c) simp_all

lemma registryCalls_invariant:
  "distinct tbl \<Longrightarrow>
     distinct (registryCalls cs tbl) \<and> set (registryCalls cs tbl) = displayedAfter cs (set tbl)"
proof (induction cs arbitrary: tbl)
  case Nil
  then show ?case by simp
next
  case (Cons c cs)
  from Cons.prems have d: "distinct (registryCall c tbl)" by (rule registryCall_distinct)
  from Cons.prems have s: "set (registryCall c tbl) = displayedAfter [c] (set tbl)"
    by (rule registryCall_set)
  from Cons.IH [OF d] show ?case
    by (simp add: s displayedAfter_step [of c cs])
qed

lemma distinct_count_list_one: "distinct xs \<Longrightarrow> x \<in> set xs \<Longrightarrow> count_list xs x = 1"
  by (induction xs) auto

lemma in_set_map_filter:
  "y \<in> set (List.map_filter f xs) \<longleftrightarrow> (\<exists>x \<in> set xs. f x = Some y)"
  by (induction xs) (auto split: option.splits)

lemma occupiedSlots_iff:
  "slot \<in> occupiedSlots tbl \<longleftrightarrow> (\<exists>i. slotFor i tbl = Some slot)"
proof
  assume "slot \<in> occupiedSlots tbl"
  then show "\<exists>i. slotFor i tbl = Some slot"
    by (auto simp: occupiedSlots_def in_set_map_filter)
next
  assume "\<exists>i. slotFor i tbl = Some slot"
  then obtain i where i: "slotFor i tbl = Some slot" ..
  then have "i \<in> set tbl"
    using indexOf_None_iff [of i tbl] by (auto simp: slotFor_def)
  with i show "slot \<in> occupiedSlots tbl"
    by (auto simp: occupiedSlots_def in_set_map_filter)
qed

lemma occupiedSlots_distinct:
  assumes "distinct tbl"
  shows "occupiedSlots tbl = {0..<length tbl}"
proof (rule set_eqI)
  fix slot
  show "slot \<in> occupiedSlots tbl \<longleftrightarrow> slot \<in> {0..<length tbl}"
  proof
    assume "slot \<in> occupiedSlots tbl"
    then obtain i where "indexOf i tbl = Some slot"
      by (auto simp: occupiedSlots_iff slotFor_def)
    then show "slot \<in> {0..<length tbl}" using indexOf_Some_nth [of i tbl slot] by simp
  next
    assume "slot \<in> {0..<length tbl}"
    then have "indexOf (tbl ! slot) tbl = Some slot"
      using assms by (simp add: indexOf_nth_distinct)
    then show "slot \<in> occupiedSlots tbl"
      unfolding occupiedSlots_iff slotFor_def by blast
  qed
qed

lemma indexOf_append_new: "x \<notin> set xs \<Longrightarrow> indexOf x (xs @ [x]) = Some (length xs)"
  by (induction xs) auto

text \<open>
  Claim C6. After any finite sequence of \<open>assignSlot\<close> and \<open>releaseSlot\<close> calls that
  starts from the empty registry, the lookup table holds no dataset id twice, and its
  occupied slots are exactly \<open>0, ..., n - 1\<close>, where \<open>n\<close> is the number of datasets on
  display, which is also the length of the table.
\<close>

theorem registry_slots_contiguous:
  "distinct (registryCalls cs []) \<and>
   occupiedSlots (registryCalls cs []) = {0..<card (displayedAfter cs {})} \<and>
   length (registryCalls cs []) = card (displayedAfter cs {})"
proof -
  have inv: "distinct (registryCalls cs ([] :: 'a list))"
    "set (registryCalls cs ([] :: 'a list)) = displayedAfter cs {}"
    using registryCalls_invariant [of "[] :: 'a list" cs] by simp_all
  then have len: "length (registryCalls cs []) = card (displayedAfter cs {})"
    using distinct_card [of "registryCalls cs []"] by simp
  show ?thesis using inv(1) len by (simp add: occupiedSlots_distinct)
qed

text \<open>
  Claim C7. \<open>assignSlot\<close> is idempotent: for every id and every table, a second
  \<open>assignSlot(id)\<close> returns the slot the first one returned and leaves the table as the
  first one left it; and in a registry state, where the table holds no id twice, the
  table then has exactly one entry for the id.
\<close>

theorem assignSlot_idempotent:
  "fst (assignSlot i (snd (assignSlot i tbl))) = fst (assignSlot i tbl) \<and>
   snd (assignSlot i (snd (assignSlot i tbl))) = snd (assignSlot i tbl) \<and>
   (distinct tbl \<longrightarrow> count_list (snd (assignSlot i (snd (assignSlot i tbl)))) i = 1)"
proof (cases "indexOf i tbl")
  case None
  then have notin: "i \<notin> set tbl" by (simp add: indexOf_None_iff)
  have t1: "assignSlot i tbl = (length tbl, tbl @ [i])"
    using None by (simp add: assignSlot_def slotFor_def)
  have "indexOf i (tbl @ [i]) = Some (length tbl)"
    using notin by (rule indexOf_append_new)
  then have t2: "assignSlot i (tbl @ [i]) = (length tbl, tbl @ [i])"
    by (simp add: assignSlot_def slotFor_def)
  have "count_list (tbl @ [i]) i = 1" using notin by (simp add: count_list_0_iff)
  then show ?thesis by (simp add: t1 t2)
next
  case (Some slot)
  then have t1: "assignSlot i tbl = (slot, tbl)"
    by (simp add: assignSlot_def slotFor_def)
  have "i \<in> set tbl" using Some indexOf_None_iff [of i tbl] by auto
  then have "distinct tbl \<longrightarrow> count_list tbl i = 1"
    by (simp add: distinct_count_list_one)
  then show ?thesis by (simp add: t1)
qed

theorem assignSlot_idempotent_witness:
  "distinct [7, 9 :: nat] \<and>
   assignSlot 9 [7, 9 :: nat] = (1, [7, 9]) \<and>
   fst (assignSlot 9 (snd (assignSlot 9 [7, 9 :: nat]))) = 1 \<and>
   snd (assignSlot 9 (snd (assignSlot 9 [7, 9 :: nat]))) = [7, 9] \<and>
   count_list (snd (assignSlot 9 (snd (assignSlot 9 [7, 9 :: nat])))) 9 = 1 \<and>
   assignSlot 4 [7, 9 :: nat] = (2, [7, 9, 4]) \<and>
   fst (assignSlot 4 (snd (assignSlot 4 [7, 9 :: nat]))) = 2 \<and>
   snd (assignSlot 4 (snd (assignSlot 4 [7, 9 :: nat]))) = [7, 9, 4] \<and>
   count_list (snd (assignSlot 4 (snd (assignSlot 4 [7, 9 :: nat])))) 4 = 1"
  using assignSlot_idempotent [of 9 "[7, 9 :: nat]"] assignSlot_idempotent [of 4 "[7, 9 :: nat]"]
  by (simp add: assignSlot_def slotFor_def)

text \<open>
  Claim C8. For a dataset id that is not in the lookup table, \<open>releaseSlot(id)\<close> leaves
  the table as it is, and \<open>removeItem(id)\<close> leaves the table and all rendered lines as
  they are. Both are total functions without an error result.
\<close>

theorem release_absent_noop:
  assumes "i \<notin> set (lookupTable st)"
  shows "releaseSlot i (lookupTable st) = lookupTable st \<and> removeItem i st = st"
  using assms
  by (simp add: releaseSlot_def removeItem_def slotFor_def indexOf_None_iff [symmetric])

theorem release_absent_noop_witness:
  "(5::nat) \<notin> set (lookupTable \<lparr>lookupTable = [7, 9], graphs = [''a'', ''b'']\<rparr>) \<and>
   releaseSlot 5 [7, 9 :: nat] = [7, 9] \<and>
   removeItem 5 \<lparr>lookupTable = [7, 9 :: nat], graphs = [''a'', ''b'']\<rparr>
     = \<lparr>lookupTable = [7, 9], graphs = [''a'', ''b'']\<rparr>"
  using release_absent_noop [of "5::nat" "\<lparr>lookupTable = [7, 9], graphs = [''a'', ''b'']\<rparr>"]
  by simp

section \<open>Properties of the drag state machine\<close>

text \<open>
  Claim C9. In every state of the drag state machine, reachable or not: a pointer-up
  leads to \<open>Idle\<close> wherever the pointer is; a pointer-move in \<open>Idle\<close> changes nothing;
  and a pointer-down while a marker is being dragged changes nothing, so the dragged
  marker and its axis stay as they are until the release.
\<close>

theorem drag_transitions:
  "drag (dragStep axisOf tol (PointerUp x y) s) = Idle \<and>
   (drag s = Idle \<longrightarrow> dragStep axisOf tol (PointerMove x y) s = s) \<and>
   (drag s = Dragging m a \<longrightarrow> dragStep axisOf tol (PointerDown x y) s = s)"
  by simp

theorem drag_transitions_witness:
  "drag (dragStep (\<lambda>m. AxisX) 1 (PointerUp 40 7)
           \<lparr>drag = Dragging 2 AxisX, markers = [1, 2, 3, 4], xRange = (0, 10), yRange = (0, 5)\<rparr>)
     = Idle \<and>
   drag \<lparr>drag = Idle, markers = [1, 2, 3, 4], xRange = (0, 10), yRange = (0, 5)\<rparr> = Idle \<and>
   dragStep (\<lambda>m. AxisX) 1 (PointerMove 3 7)
       \<lparr>drag = Idle, markers = [1, 2, 3, 4], xRange = (0, 10), yRange = (0, 5)\<rparr>
     = \<lparr>drag = Idle, markers = [1, 2, 3, 4], xRange = (0, 10), yRange = (0, 5)\<rparr> \<and>
   drag \<lparr>drag = Dragging 2 AxisX, markers = [1, 2, 3, 4], xRange = (0, 10), yRange = (0, 5)\<rparr>
     = Dragging 2 AxisX \<and>
   dragStep (\<lambda>m. AxisX) 1 (PointerDown 1 7)
       \<lparr>drag = Dragging 2 AxisX, markers = [1, 2, 3, 4], xRange = (0, 10), yRange = (0, 5)\<rparr>
     = \<lparr>drag = Dragging 2 AxisX, markers = [1, 2, 3, 4], xRange = (0, 10), yRange = (0, 5)\<rparr>"
  using drag_transitions [of "\<lambda>m. AxisX" 1 40 7
      "\<lparr>drag = Dragging 2 AxisX, markers = [1, 2, 3, 4], xRange = (0, 10), yRange = (0, 5)\<rparr>"
      2 AxisX]
    drag_transitions [of "\<lambda>m. AxisX" 1 3 7
      "\<lparr>drag = Idle, markers = [1, 2, 3, 4], xRange = (0, 10), yRange = (0, 5)\<rparr>" 2 AxisX]
    drag_transitions [of "\<lambda>m. AxisX" 1 1 7
      "\<lparr>drag = Dragging 2 AxisX, markers = [1, 2, 3, 4], xRange = (0, 10), yRange = (0, 5)\<rparr>"
      2 AxisX]
  by simp


section \<open>A phase trace across the wrap-around\<close>

subsection \<open>Bounds on \<open>\<pi>\<close>\<close>

text \<open>
  The trace below needs \<open>\<pi>\<close> to two decimal places. The sine is positive just below
  \<open>\<pi>\<close> and negative just above it, and its Maclaurin polynomial of degree 15 decides
  the sign at \<open>3.14\<close> and at \<open>3.142\<close>.
\<close>

lemma sin_coeff_sum_17:
  "(\<Sum>m<17. sin_coeff m * x ^ m) =
     x - x^3 / 6 + x^5 / 120 - x^7 / 5040 + x^9 / 362880 - x^11 / 39916800
       + x^13 / 6227020800 - x^15 / 1307674368000"
  by (simp add: lessThan_nat_numeral lessThan_Suc sin_coeff_def fact_numeral)

lemma sin_314_pos: "0 < sin (314 / 100 :: real)"
proof -
  have b: "\<bar>sin (314 / 100 :: real) - (\<Sum>m<17. sin_coeff m * (314 / 100) ^ m)\<bar>
          \<le> inverse (fact 17) * \<bar>314 / 100\<bar> ^ 17"
    by (rule Maclaurin_sin_bound)
  have s: "(15 / 10000 :: real) \<le> (\<Sum>m<17. sin_coeff m * (314 / 100) ^ m)"
    unfolding sin_coeff_sum_17 by (simp add: power_divide)
  have e: "inverse (fact 17) * \<bar>314 / 100 :: real\<bar> ^ 17 \<le> 1 / 10000"
    by (simp add: fact_numeral power_divide)
  from b s e show ?thesis by linarith
qed

lemma sin_3142_neg: "sin (3142 / 1000 :: real) < 0"
proof -
  have b: "\<bar>sin (3142 / 1000 :: real) - (\<Sum>m<17. sin_coeff m * (3142 / 1000) ^ m)\<bar>
          \<le> inverse (fact 17) * \<bar>3142 / 1000\<bar> ^ 17"
    by (rule Maclaurin_sin_bound)
  have s: "(\<Sum>m<17. sin_coeff m * (3142 / 1000 :: real) ^ m) \<le> - (4 / 10000)"
    unfolding sin_coeff_sum_17 by (simp add: power_divide)
  have e: "inverse (fact 17) * \<bar>3142 / 1000 :: real\<bar> ^ 17 \<le> 1 / 10000"
    by (simp add: fact_numeral power_divide)
  from b s e show ?thesis by linarith
qed

lemma M_PI_lower: "314 / 100 < M_PI"
proof (rule ccontr)
  assume "\<not> 314 / 100 < M_PI"
  then have "pi \<le> 314 / 100" by (simp add: M_PI_def)
  moreover have "(314 / 100 :: real) < 2 * pi" using pi_ge_two by simp
  ultimately have "sin (314 / 100 :: real) \<le> 0" by (rule sin_le_zero)
  with sin_314_pos show False by simp
qed

lemma M_PI_upper: "M_PI < 3142 / 1000"
proof (rule ccontr)
  assume "\<not> M_PI < 3142 / 1000"
  then have "3142 / 1000 \<le> pi" by (simp add: M_PI_def)
  then have "0 \<le> sin (3142 / 1000 :: real)" by (intro sin_ge_zero) simp_all
  with sin_3142_neg show False by simp
qed

subsection \<open>The trace\<close>

lemma unwrap_across_wrap: "unwrap 3 (- (31 / 10)) = 2 * M_PI - 31 / 10"
proof -
  have "constrainAngle 3 = 3"
    by (rule constrainAngle_fixed) (use M_PI_lower in simp_all)
  then have c: "angleConv 3 = 3"
    by (simp add: angleConv_floor constrainAngle_floor)
  have "constrainAngle (3 - - (31 / 10)) = 3 - - (31 / 10) - of_int 1 * (2 * M_PI)"
    by (rule constrainAngle_eqI) (use M_PI_lower M_PI_upper in simp_all)
  then have "angleDiff (- (31 / 10)) 3 = 61 / 10 - 2 * M_PI"
    by (simp add: angleDiff_constrainAngle)
  then show ?thesis by (simp add: unwrap_def c)
qed

lemma unwrap_back: "unwrap (2 * M_PI - 31 / 10) 3 = 3"
proof -
  have "constrainAngle (2 * M_PI - 31 / 10) = 2 * M_PI - 31 / 10 - of_int 1 * (2 * M_PI)"
    by (rule constrainAngle_eqI) (use M_PI_lower M_PI_upper in simp_all)
  then have c: "angleConv (2 * M_PI - 31 / 10) = - (31 / 10)"
    by (simp add: angleConv_floor constrainAngle_floor)
  have "constrainAngle (- (31 / 10) - 3) = - (31 / 10) - 3 - of_int (- 1) * (2 * M_PI)"
    by (rule constrainAngle_eqI) (use M_PI_lower M_PI_upper in simp_all)
  then have "angleDiff 3 (- (31 / 10)) = 2 * M_PI - 61 / 10"
    by (simp add: angleDiff_constrainAngle)
  then show ?thesis by (simp add: unwrap_def c)
qed

text \<open>
  Claim C5. Unwrapping the phase samples \<open>3.0, -3.1, 3.0\<close> from left to right, the
  first sample taken as it is, gives \<open>3.0, 2\<pi> - 3.1, 3.0\<close>. Neighbouring outputs are
  less than \<open>2\<pi> \<cdot> 0.1\<close> apart, and the middle output is \<open>3.18\<close> up to \<open>0.005\<close>, so the
  trace is about \<open>3.0, 3.18, 3.0\<close> and has no jump of a full turn.
\<close>

theorem unwrap_phase_scenario:
  "unwrapSeq [3, - (31 / 10), 3] = [3, 2 * M_PI - 31 / 10, 3] \<and>
   stepsBelow (2 * M_PI * (1 / 10)) (unwrapSeq [3, - (31 / 10), 3]) \<and>
   \<bar>unwrapSeq [3, - (31 / 10), 3] ! 1 - 318 / 100\<bar> < 5 / 1000"
proof -
  have tr: "unwrapSeq [3, - (31 / 10), 3] = [3, 2 * M_PI - 31 / 10, 3]"
    by (simp add: unwrap_across_wrap unwrap_back)
  have s1: "\<bar>2 * M_PI - 31 / 10 - 3\<bar> < 2 * M_PI * (1 / 10)"
    using M_PI_lower M_PI_upper by linarith
  have s2: "\<bar>3 - (2 * M_PI - 31 / 10)\<bar> < 2 * M_PI * (1 / 10)"
    using M_PI_lower M_PI_upper by linarith
  have st: "stepsBelow (2 * M_PI * (1 / 10)) [3, 2 * M_PI - 31 / 10, 3]"
    unfolding stepsBelow.simps by (intro conjI s1 s2 TrueI)
  have n: "[3, 2 * M_PI - 31 / 10, 3] ! 1 = 2 * M_PI - 31 / 10"
    by simp
  have s3: "\<bar>2 * M_PI - 31 / 10 - 318 / 100\<bar> < 5 / 1000"
    using M_PI_lower M_PI_upper by linarith
  show ?thesis unfolding tr n by (intro conjI refl st s3)
qed

section \<open>Rounding to double precision\<close>

text \<open>
  Facts about \<open>roundEven\<close>, the binade of a number, and \<open>rnd\<close>: rounding is odd, it
  moves a number by half an \<open>ulp\<close> at most, it never crosses a number of the grid it
  rounds to, it leaves the numbers of that grid alone, and its result is a fixed point.
\<close>

lemma roundEven_of_int: "roundEven (of_int k) = k"
  by (simp add: roundEven_def)

lemma roundEven_floor_le: "\<lfloor>r\<rfloor> \<le> roundEven r"
  by (simp add: roundEven_def Let_def)

lemma roundEven_le_floor1: "roundEven r \<le> \<lfloor>r\<rfloor> + 1"
  by (simp add: roundEven_def Let_def)

lemma roundEven_ge: "of_int a \<le> r \<Longrightarrow> a \<le> roundEven r"
  using roundEven_floor_le [of r] by (simp add: le_floor_iff [symmetric])

lemma roundEven_error: "\<bar>of_int (roundEven r) - r\<bar> \<le> 1 / 2"
proof -
  have "of_int \<lfloor>r\<rfloor> \<le> r" "r < of_int \<lfloor>r\<rfloor> + 1" by linarith+
  then show ?thesis
    by (auto simp: roundEven_def Let_def)
qed

lemma roundEven_near:
  assumes "\<bar>r - of_int k\<bar> < 1 / 2"
  shows "roundEven r = k"
proof -
  have e: "\<bar>of_int (roundEven r) - r\<bar> \<le> 1 / 2" by (rule roundEven_error)
  have "\<bar>(of_int (roundEven r) :: real) - of_int k\<bar> < 1" using e assms by linarith
  then have "\<bar>of_int (roundEven r - k) :: real\<bar> < 1" by simp
  then have "\<bar>roundEven r - k\<bar> < 1" by (metis of_int_abs of_int_less_1_iff)
  then show ?thesis by simp
qed

lemma roundEven_tie:
  "roundEven (of_int k + 1 / 2) = (if even k then k else k + 1)"
proof -
  have "\<lfloor>(of_int k :: real) + 1 / 2\<rfloor> = k" by (rule floor_unique) simp_all
  then show ?thesis by (simp add: roundEven_def Let_def)
qed

lemma roundEven_minus: "roundEven (- r) = - roundEven r"
proof (cases "r \<in> \<int>")
  case True
  then obtain k where "r = of_int k" by (auto elim: Ints_cases)
  then show ?thesis using roundEven_of_int [of "- k"] by (simp add: roundEven_of_int)
next
  case False
  then have "r \<noteq> of_int \<lfloor>r\<rfloor>" by (metis Ints_of_int)
  then have c: "\<lceil>r\<rceil> = \<lfloor>r\<rfloor> + 1" by (simp add: ceiling_altdef)
  have f: "\<lfloor>- r\<rfloor> = - \<lfloor>r\<rfloor> - 1" by (simp add: floor_minus c)
  show ?thesis
    unfolding roundEven_def Let_def f by (auto simp: algebra_simps)
qed

lemma powr_powi: "(2::real) powr (of_int k) = 2 powi k"
  by (rule powr_real_of_int') simp_all

lemma powr_powi1: "(2::real) powr (of_int k + 1) = 2 powi (k + 1)"
  using powr_powi [of "k + 1"] by simp

lemma binade_bounds:
  assumes "x \<noteq> 0"
  shows "2 powi binade x \<le> \<bar>x\<bar>" and "\<bar>x\<bar> < 2 powi (binade x + 1)"
proof -
  have pos: "0 < \<bar>x\<bar>" using assms by simp
  have "\<lfloor>log 2 \<bar>x\<bar>\<rfloor> = binade x" by (simp add: binade_def)
  then have "2 powr (of_int (binade x)) \<le> \<bar>x\<bar> \<and> \<bar>x\<bar> < 2 powr (of_int (binade x + 1))"
    using floor_log_eq_powr_iff [OF pos, of 2 "binade x"] by simp
  then show "2 powi binade x \<le> \<bar>x\<bar>" and "\<bar>x\<bar> < 2 powi (binade x + 1)"
    by (simp_all add: powr_powi powr_powi1)
qed

lemma binade_eqI:
  assumes "2 powi e \<le> \<bar>x\<bar>" "\<bar>x\<bar> < 2 powi (e + 1)"
  shows "binade x = e"
proof -
  have "0 < (2::real) powi e" by simp
  with assms(1) have pos: "0 < \<bar>x\<bar>" by linarith
  have "2 powr (of_int e) \<le> \<bar>x\<bar> \<and> \<bar>x\<bar> < 2 powr (of_int (e + 1))"
    using assms by (simp add: powr_powi powr_powi1)
  then show ?thesis
    unfolding binade_def using floor_log_eq_powr_iff [OF pos, of 2 e] by simp
qed

lemma powi_le_abs_nonzero:
  assumes "2 powi e \<le> \<bar>x :: real\<bar>"
  shows "x \<noteq> 0"
proof
  assume "x = 0"
  with assms have "(2::real) powi e \<le> 0" by simp
  moreover have "0 < (2::real) powi e" by (rule zero_less_power_int) simp
  ultimately show False by linarith
qed

lemma binade_ge:
  assumes "2 powi e \<le> \<bar>x\<bar>"
  shows "e \<le> binade x"
proof (rule ccontr)
  assume "\<not> e \<le> binade x"
  then have "binade x + 1 \<le> e" by simp
  then have "(2::real) powi (binade x + 1) \<le> 2 powi e"
    by (intro power_int_increasing) simp_all
  moreover have "x \<noteq> 0"
  proof
    assume "x = 0"
    with assms have "(2::real) powi e \<le> 0" by simp
    moreover have "0 < (2::real) powi e" by (rule zero_less_power_int) simp
    ultimately show False by linarith
  qed
  ultimately show False using binade_bounds(2) [of x] assms by linarith
qed

lemma binade_less:
  assumes "x \<noteq> 0" "\<bar>x\<bar> < 2 powi e"
  shows "binade x < e"
proof (rule ccontr)
  assume "\<not> binade x < e"
  then have "(2::real) powi e \<le> 2 powi binade x"
    by (intro power_int_increasing) simp_all
  then show False using binade_bounds(1) [OF assms(1)] assms(2) by linarith
qed

lemma binade_minus: "binade (- x) = binade x"
  by (simp add: binade_def)

lemma ulp_minus: "ulp (- x) = ulp x"
  by (simp add: ulp_def ulpExp_def binade_minus)

lemma ulpExp_minus: "ulpExp (- x) = ulpExp x"
  by (simp add: ulpExp_def binade_minus)

lemma rnd_minus: "rnd (- x) = - rnd x"
  by (simp add: rnd_def ulp_minus roundEven_minus)

lemma ulp_pos: "0 < ulp x"
  by (simp add: ulp_def)

lemma rnd_0: "rnd 0 = 0"
  by (simp add: rnd_def roundEven_def)

lemma grid_0: "grid j 0"
  by (simp add: grid_def)

lemma grid_minus: "grid j a \<Longrightarrow> grid j (- a)"
  by (simp add: grid_def)

lemma grid_add: "grid j a \<Longrightarrow> grid j b \<Longrightarrow> grid j (a + b)"
  by (simp add: grid_def add_divide_distrib)

lemma grid_diff: "grid j a \<Longrightarrow> grid j b \<Longrightarrow> grid j (a - b)"
  by (simp add: grid_def diff_divide_distrib)

lemma grid_mult_int:
  assumes "grid j a"
  shows "grid j (of_int n * a)"
proof -
  have "of_int n * a / 2 powi j = of_int n * (a / 2 powi j)" by simp
  moreover have "of_int n * (a / 2 powi j) \<in> \<int>"
    using assms unfolding grid_def by (intro Ints_mult) simp_all
  ultimately show ?thesis by (simp only: grid_def)
qed

lemma grid_powi: "j \<le> e \<Longrightarrow> grid j (2 powi e)"
proof -
  assume "j \<le> e"
  have "(2::real) powi e / 2 powi j = 2 powi (e - j)"
    by (simp add: power_int_diff)
  also have "\<dots> = 2 ^ nat (e - j)"
    using \<open>j \<le> e\<close> by (simp add: power_int_nonneg_exp)
  finally show ?thesis by (simp add: grid_def)
qed

lemma grid_mono:
  assumes "grid e a" "j \<le> e"
  shows "grid j a"
proof -
  from assms(1) obtain k where k: "a / 2 powi e = of_int k"
    by (auto simp: grid_def elim: Ints_cases)
  then have "a = of_int k * 2 powi e" by (simp add: field_simps)
  then show ?thesis using grid_mult_int [OF grid_powi [OF assms(2)], of k] by simp
qed

lemma grid_rnd: "grid (ulpExp x) (rnd x)"
  by (simp add: grid_def rnd_def ulp_def)

lemma rnd_exact:
  assumes "grid (ulpExp x) x"
  shows "rnd x = x"
proof -
  from assms obtain k where k: "x / ulp x = of_int k"
    by (auto simp: grid_def ulp_def elim: Ints_cases)
  have "rnd x = of_int k * ulp x"
    by (simp add: rnd_def k roundEven_of_int)
  also have "\<dots> = x / ulp x * ulp x" by (simp only: k)
  also have "\<dots> = x" using ulp_pos [of x] by simp
  finally show ?thesis .
qed

lemma rnd_ge:
  assumes "a \<le> x" "grid (ulpExp x) a"
  shows "a \<le> rnd x"
proof -
  from assms(2) obtain k where k: "a / ulp x = of_int k"
    by (auto simp: grid_def ulp_def elim: Ints_cases)
  have "a / ulp x \<le> x / ulp x"
    using assms(1) ulp_pos [of x] by (simp add: divide_right_mono)
  then have "k \<le> roundEven (x / ulp x)" using k by (intro roundEven_ge) simp
  then have "of_int k * ulp x \<le> rnd x"
    unfolding rnd_def using ulp_pos [of x] by (intro mult_right_mono) simp_all
  moreover have "a = of_int k * ulp x" using k ulp_pos [of x] by (simp add: field_simps)
  ultimately show ?thesis by simp
qed

lemma rnd_le:
  assumes "x \<le> b" "grid (ulpExp x) b"
  shows "rnd x \<le> b"
proof -
  have "- b \<le> rnd (- x)"
    using assms by (intro rnd_ge) (simp_all add: grid_minus ulpExp_minus)
  then show ?thesis by (simp add: rnd_minus)
qed


lemma ulpExp_ge: "- 1074 \<le> ulpExp x"
  by (simp add: ulpExp_def)

lemma ulpExp_le:
  assumes "\<bar>x\<bar> < 2 powi k"
  shows "ulpExp x \<le> max (k - 53) (- 1074)"
proof (cases "x = 0")
  case True
  then show ?thesis by (simp add: ulpExp_def)
next
  case False
  then have "binade x < k" using assms by (rule binade_less)
  then show ?thesis using False by (simp add: ulpExp_def)
qed

lemma ulpExp_ge_binade:
  assumes "2 powi k \<le> \<bar>x\<bar>"
  shows "k - 52 \<le> ulpExp x"
proof -
  have "k \<le> binade x" using assms by (rule binade_ge)
  moreover have "x \<noteq> 0"
  proof
    assume "x = 0"
    with assms have "(2::real) powi k \<le> 0" by simp
    moreover have "0 < (2::real) powi k" by (rule zero_less_power_int) simp
    ultimately show False by linarith
  qed
  ultimately show ?thesis by (simp add: ulpExp_def)
qed

lemma rnd_abs_le:
  assumes "\<bar>x\<bar> \<le> b" "grid (ulpExp x) b"
  shows "\<bar>rnd x\<bar> \<le> b"
proof -
  have "rnd x \<le> b" using assms by (intro rnd_le) simp_all
  moreover have "- b \<le> rnd x" using assms by (intro rnd_ge) (simp_all add: grid_minus)
  ultimately show ?thesis by simp
qed

lemma rnd_tiny:
  assumes "\<bar>x\<bar> < 2 powi (- 1075)"
  shows "rnd x = 0"
proof (cases "x = 0")
  case True
  then show ?thesis by (simp add: rnd_0)
next
  case False
  then have "binade x < - 1075" using assms by (rule binade_less)
  then have u: "ulp x = 2 powi (- 1074)" using False by (simp add: ulp_def ulpExp_def)
  have "(2::real) powi (- 1075) = 2 powi (- 1074) / 2"
    using power_int_diff [of "2::real" "- 1074" 1] by simp
  then have "\<bar>x\<bar> < ulp x / 2" using assms u by simp
  then have "\<bar>x / ulp x\<bar> < 1 / 2" using ulp_pos [of x] by (simp add: field_simps)
  then have "roundEven (x / ulp x) = 0" by (intro roundEven_near) simp
  then show ?thesis by (simp add: rnd_def)
qed

lemma rnd_rnd: "rnd (rnd x) = rnd x"
proof (cases "rnd x = 0")
  case True
  then show ?thesis by (simp add: rnd_0)
next
  case w: False
  then have x: "x \<noteq> 0" using rnd_0 by auto
  define j where "j = binade x"
  have u: "ulpExp x = max (j - 52) (- 1074)" using x by (simp add: ulpExp_def j_def)
  have big: "- 1075 \<le> j"
  proof (rule ccontr)
    assume "\<not> - 1075 \<le> j"
    then have "j + 1 \<le> - 1075" by simp
    then have "(2::real) powi (j + 1) \<le> 2 powi (- 1075)"
      by (intro power_int_increasing) simp_all
    then have "\<bar>x\<bar> < 2 powi (- 1075)"
      using binade_bounds(2) [OF x] by (simp add: j_def)
    then have "rnd x = 0" by (rule rnd_tiny)
    with w show False by simp
  qed
  have g: "grid (ulpExp x) (2 powi (j + 1))"
    by (rule grid_powi) (use big u in simp)
  have "\<bar>x\<bar> \<le> 2 powi (j + 1)" using binade_bounds(2) [OF x] by (simp add: j_def)
  then have le: "\<bar>rnd x\<bar> \<le> 2 powi (j + 1)" using g by (rule rnd_abs_le)
  have "grid (ulpExp (rnd x)) (rnd x)"
  proof (cases "\<bar>rnd x\<bar> < 2 powi (j + 1)")
    case True
    with w have "binade (rnd x) < j + 1" by (rule binade_less)
    then have "ulpExp (rnd x) \<le> ulpExp x" using w u by (simp add: ulpExp_def)
    with grid_rnd [of x] show ?thesis by (rule grid_mono)
  next
    case False
    with le have eq: "\<bar>rnd x\<bar> = 2 powi (j + 1)" by simp
    have "(2::real) powi (j + 1) < 2 powi (j + 1 + 1)"
      by (intro power_int_strict_increasing) simp_all
    then have "binade (rnd x) = j + 1" by (intro binade_eqI) (simp_all add: eq)
    then have "ulpExp (rnd x) \<le> j + 1" using w big by (simp add: ulpExp_def)
    then have "grid (ulpExp (rnd x)) (2 powi (j + 1))" by (rule grid_powi)
    then have "grid (ulpExp (rnd x)) \<bar>rnd x\<bar>" by (simp only: eq)
    then show ?thesis
      by (cases "0 \<le> rnd x") (auto dest: grid_minus)
  qed
  then show ?thesis by (rule rnd_exact)
qed

lemma grid_DBL_MAX: "grid 971 DBL_MAX"
proof -
  have "grid 971 (of_int (2 ^ 53 - 1) * 2 powi 971)"
    by (intro grid_mult_int grid_powi) simp
  then show ?thesis by (simp add: DBL_MAX_def)
qed

lemma DBL_MAX_less: "DBL_MAX + 4 < 2 powi 1024"
proof -
  have "(2::real) powi 1024 = 2 ^ 53 * 2 ^ 971" by (simp add: power_add [symmetric])
  moreover have "(4::real) < 2 ^ 971"
    using power_strict_increasing [of 2 971 "2::real"] by simp
  ultimately show ?thesis by (simp add: DBL_MAX_def algebra_simps)
qed

lemma rnd_le_DBL_MAX:
  assumes "z \<le> DBL_MAX + 4"
  shows "rnd z \<le> DBL_MAX"
proof -
  have pos: "0 < DBL_MAX" by (simp add: DBL_MAX_def)
  consider "z \<le> 0" | "0 < z" "z \<le> DBL_MAX" | "DBL_MAX < z" by linarith
  then show ?thesis
  proof cases
    case 1
    then have "rnd z \<le> 0" by (intro rnd_le grid_0)
    with pos show ?thesis by simp
  next
    case 2
    then have "\<bar>z\<bar> < 2 powi 1024" using DBL_MAX_less by simp
    then have "ulpExp z \<le> 971" using ulpExp_le [of z 1024] by simp
    with grid_DBL_MAX have "grid (ulpExp z) DBL_MAX" by (rule grid_mono)
    with 2 show ?thesis by (intro rnd_le)
  next
    case 3
    have lo: "(2::real) powi 1023 \<le> DBL_MAX"
    proof -
      have "(2::real) powi 1023 = 2 ^ 52 * 2 ^ 971" by (simp add: power_add [symmetric])
      then show ?thesis by (simp add: DBL_MAX_def)
    qed
    have b: "binade z = 1023"
      by (rule binade_eqI) (use 3 lo assms DBL_MAX_less in simp_all)
    have z0: "z \<noteq> 0" using 3 pos by simp
    have u: "ulp z = 2 ^ 971" using b z0 by (simp add: ulp_def ulpExp_def)
    have "(4::real) < 2 ^ 970"
      using power_strict_increasing [of 2 970 "2::real"] by simp
    then have "(z - DBL_MAX) / 2 ^ 971 < 1 / 2"
      using assms by (simp add: field_simps)
    moreover have "0 < (z - DBL_MAX) / (2 ^ 971 :: real)" using 3 by simp
    moreover have "z / 2 ^ 971 - of_int (2 ^ 53 - 1) = (z - DBL_MAX) / 2 ^ 971"
      by (simp add: DBL_MAX_def field_simps)
    ultimately have "\<bar>z / 2 ^ 971 - of_int (2 ^ 53 - 1)\<bar> < 1 / 2" by simp
    then have "roundEven (z / ulp z) = 2 ^ 53 - 1"
      unfolding u by (rule roundEven_near)
    then show ?thesis by (simp add: rnd_def u DBL_MAX_def)
  qed
qed

lemma rnd_no_overflow:
  assumes "\<bar>x\<bar> \<le> DBL_MAX" "\<bar>y\<bar> \<le> 4"
  shows "\<bar>rnd (x + y)\<bar> \<le> DBL_MAX"
proof -
  have "rnd (x + y) \<le> DBL_MAX" using assms by (intro rnd_le_DBL_MAX) linarith
  moreover have "rnd (- (x + y)) \<le> DBL_MAX" using assms by (intro rnd_le_DBL_MAX) linarith
  then have "- rnd (x + y) \<le> DBL_MAX" by (simp only: rnd_minus)
  ultimately show ?thesis by linarith
qed

lemma ulpExp_mono:
  assumes "\<bar>a\<bar> \<le> \<bar>b\<bar>"
  shows "ulpExp a \<le> ulpExp b"
proof (cases "a = 0")
  case True
  then show ?thesis using ulpExp_ge [of b] by (simp add: ulpExp_def)
next
  case False
  with assms have b: "b \<noteq> 0" by auto
  have "2 powi binade a \<le> \<bar>b\<bar>" using binade_bounds(1) [OF False] assms by linarith
  then have "binade a \<le> binade b" by (rule binade_ge)
  then show ?thesis using False b by (simp add: ulpExp_def)
qed


subsection \<open>Settling a rounding at a given number\<close>

text \<open>
  A rounding at a given number is settled by naming its binade and the integer it rounds
  to, a remainder by naming its quotient.
\<close>

lemma DBL_MAX_ge_powi:
  assumes "e \<le> 1023"
  shows "2 powi e \<le> DBL_MAX"
proof -
  have "(2::real) powi e \<le> 2 powi 1023" using assms by (intro power_int_increasing) simp_all
  also have "\<dots> = 2 ^ 52 * 2 ^ 971" by (simp add: power_add [symmetric])
  also have "\<dots> \<le> DBL_MAX" by (simp add: DBL_MAX_def)
  finally show ?thesis .
qed

lemma rnd_in_binade:
  assumes "2 powi e \<le> \<bar>x\<bar>" "\<bar>x\<bar> < 2 powi (e + 1)" "- 1022 \<le> e"
  shows "ulp x = 2 powi (e - 52)" "\<bar>rnd x\<bar> \<le> 2 powi (e + 1)"
proof -
  have b: "binade x = e" using assms(1,2) by (rule binade_eqI)
  have x: "x \<noteq> 0" using assms(1) by (rule powi_le_abs_nonzero)
  show u: "ulp x = 2 powi (e - 52)" using b x assms(3) by (simp add: ulp_def ulpExp_def)
  have "ulpExp x = e - 52" using b x assms(3) by (simp add: ulpExp_def)
  then have "grid (ulpExp x) (2 powi (e + 1))" by (intro grid_powi) simp
  with assms(2) show "\<bar>rnd x\<bar> \<le> 2 powi (e + 1)" by (intro rnd_abs_le) simp_all
qed

lemma toDouble_near:
  assumes "2 powi e \<le> \<bar>x\<bar>" "\<bar>x\<bar> < 2 powi (e + 1)" "- 1022 \<le> e" "e \<le> 1022"
    and "\<bar>x / 2 powi (e - 52) - of_int k\<bar> < 1 / 2"
  shows "toDouble x = Some (of_int k * 2 powi (e - 52))"
proof -
  note r = rnd_in_binade [OF assms(1-3)]
  have "roundEven (x / ulp x) = k" unfolding r(1) using assms(5) by (rule roundEven_near)
  then have v: "rnd x = of_int k * 2 powi (e - 52)" by (simp add: rnd_def r(1))
  have "\<bar>rnd x\<bar> \<le> DBL_MAX" using r(2) DBL_MAX_ge_powi [of "e + 1"] assms(4) by simp
  then show ?thesis by (simp add: toDouble_def v)
qed

lemma toDouble_tie:
  assumes "2 powi e \<le> \<bar>x\<bar>" "\<bar>x\<bar> < 2 powi (e + 1)" "- 1022 \<le> e" "e \<le> 1022"
    and "x / 2 powi (e - 52) = of_int k + 1 / 2"
  shows "toDouble x = Some (of_int (if even k then k else k + 1) * 2 powi (e - 52))"
proof -
  note r = rnd_in_binade [OF assms(1-3)]
  have "roundEven (x / ulp x) = (if even k then k else k + 1)"
    unfolding r(1) assms(5) by (rule roundEven_tie)
  then have v: "rnd x = of_int (if even k then k else k + 1) * 2 powi (e - 52)"
    by (simp add: rnd_def r(1))
  have "\<bar>rnd x\<bar> \<le> DBL_MAX" using r(2) DBL_MAX_ge_powi [of "e + 1"] assms(4) by simp
  then show ?thesis by (simp only: toDouble_def v [symmetric] if_True)
qed

lemma rnd_exactI:
  assumes "grid j x" "\<bar>x\<bar> < 2 powi (j + 53)" "- 1074 \<le> j"
  shows "rnd x = x"
proof -
  have "ulpExp x \<le> j" using ulpExp_le [OF assms(2)] assms(3) by simp
  with assms(1) have "grid (ulpExp x) x" by (rule grid_mono)
  then show ?thesis by (rule rnd_exact)
qed

lemma isDoubleI:
  assumes "grid j x" "\<bar>x\<bar> < 2 powi (j + 53)" "- 1074 \<le> j" "j \<le> 970"
  shows "isDouble x"
proof -
  have "\<bar>x\<bar> \<le> DBL_MAX"
    using assms(2) DBL_MAX_ge_powi [of "j + 53"] assms(4) by simp
  then show ?thesis using rnd_exactI [OF assms(1-3)] by (simp add: isDouble_def)
qed

lemma toDouble_zero: "toDouble 0 = Some 0"
  by (simp add: toDouble_def rnd_0 DBL_MAX_def)

lemma fmod_nonneg_eval:
  assumes "0 < y" "0 \<le> n" "of_int n * y \<le> x" "x < (of_int n + 1) * y"
  shows "fmod x y = x - of_int n * y"
proof -
  have "of_int n \<le> x / y" using assms(1,3) by (simp add: pos_le_divide_eq)
  moreover have "x / y < of_int n + 1" using assms(1,4) by (simp add: pos_divide_less_eq)
  ultimately have "\<lfloor>x / y\<rfloor> = n" "0 \<le> x / y" using assms(2) by (linarith, linarith)
  then show ?thesis by (simp add: fmod_def trunc_def)
qed

lemma fmod_neg_eval:
  assumes "0 < y" "x \<le> of_int n * y" "(of_int n - 1) * y < x" "n \<le> 0"
  shows "fmod x y = x - of_int n * y"
proof -
  have le: "x / y \<le> of_int n" using assms(1,2) by (simp add: pos_divide_le_eq)
  have gt: "of_int n - 1 < x / y" using assms(1,3) by (simp add: pos_less_divide_eq)
  show ?thesis
  proof (cases "0 \<le> x / y")
    case True
    with le assms(4) have n0: "n = 0" and q0: "x / y = 0" by (linarith, linarith)
    have tr: "trunc (x / y) = 0" unfolding q0 by (simp add: trunc_def)
    show ?thesis unfolding fmod_def tr n0 by simp
  next
    case False
    have "\<lceil>x / y\<rceil> = n" using le gt by linarith
    with False show ?thesis by (simp add: fmod_def trunc_def)
  qed
qed

section \<open>Properties of the angle arithmetic in double precision\<close>

subsection \<open>The range of \<open>constrainAngle\<close>\<close>

lemma M_PI_dbl_bounds: "3 < M_PI_dbl" "M_PI_dbl < 4"
  by (simp_all add: M_PI_dbl_def)

lemma grid_M_PI_dbl: "grid (- 48) M_PI_dbl"
proof -
  have "M_PI_dbl / 2 powi (- 48) = 884279719003555"
    by (simp add: M_PI_dbl_def)
  then show ?thesis by (simp only: grid_def Ints_numeral)
qed

lemma grid_two_M_PI_dbl: "grid (- 47) (2 * M_PI_dbl)"
proof -
  have "2 * M_PI_dbl / 2 powi (- 47) = 884279719003555"
    by (simp add: M_PI_dbl_def)
  then show ?thesis by (simp only: grid_def Ints_numeral)
qed

lemma DBL_MAX_big: "8 \<le> DBL_MAX"
proof -
  have "(1::real) \<le> 2 ^ 971" by simp
  then have "(2 ^ 53 - 1) * (1::real) \<le> (2 ^ 53 - 1) * 2 ^ 971"
    by (intro mult_left_mono) simp_all
  then show ?thesis by (simp add: DBL_MAX_def)
qed

lemma toDouble_SomeI: "\<bar>rnd x\<bar> \<le> DBL_MAX \<Longrightarrow> toDouble x = Some (rnd x)"
  by (simp add: toDouble_def)

lemma rnd_in_turn:
  assumes "0 \<le> v" "v \<le> 2 * M_PI_dbl"
  shows "0 \<le> rnd v" "rnd v \<le> 2 * M_PI_dbl"
proof -
  show "0 \<le> rnd v" using assms(1) by (intro rnd_ge grid_0)
  have "\<bar>v\<bar> < 2 powi 3" using assms M_PI_dbl_bounds by simp
  then have "ulpExp v \<le> - 47" using ulpExp_le [of v 3] by simp
  with grid_two_M_PI_dbl have "grid (ulpExp v) (2 * M_PI_dbl)" by (rule grid_mono)
  with assms(2) show "rnd v \<le> 2 * M_PI_dbl" by (intro rnd_le)
qed

lemma rnd_in_half_turn:
  assumes "\<bar>v\<bar> \<le> M_PI_dbl"
  shows "\<bar>rnd v\<bar> \<le> M_PI_dbl"
proof -
  have "\<bar>v\<bar> < 2 powi 2" using assms M_PI_dbl_bounds by simp
  then have "ulpExp v \<le> - 48" using ulpExp_le [of v 2] by simp
  with grid_M_PI_dbl have "grid (ulpExp v) M_PI_dbl" by (rule grid_mono)
  with assms show ?thesis by (intro rnd_abs_le)
qed

lemma wrap_dbl_range:
  "\<exists>w. wrap_dbl (fmod t (2 * M_PI_dbl)) = Some w \<and> 0 \<le> w \<and> w \<le> 2 * M_PI_dbl"
proof -
  let ?T = "2 * M_PI_dbl" and ?f = "fmod t (2 * M_PI_dbl)"
  have T: "0 < ?T" using M_PI_dbl_bounds by simp
  define v where "v = t - of_int \<lfloor>t / ?T\<rfloor> * ?T"
  have v: "0 \<le> v" "v < ?T" using floor_wrap_range [OF T, of t] by (simp_all add: v_def)
  have w: "(if ?f < 0 then ?f + ?T else ?f) = v"
    using fmod_wrap_floor [OF T, of t] by (simp add: v_def)
  show ?thesis
  proof (cases "?f < 0")
    case True
    with w have fv: "?f + ?T = v" by simp
    have r: "0 \<le> rnd v" "rnd v \<le> ?T" using v by (simp_all add: rnd_in_turn)
    then have "\<bar>rnd v\<bar> \<le> DBL_MAX" using DBL_MAX_big M_PI_dbl_bounds by simp
    then have "toDouble v = Some (rnd v)" by (rule toDouble_SomeI)
    then show ?thesis using True r by (simp add: wrap_dbl_def add_dbl_def fv)
  next
    case False
    with w have "?f = v" by simp
    then show ?thesis using False v by (simp add: wrap_dbl_def)
  qed
qed

lemma sub_M_PI_dbl_range:
  assumes "0 \<le> w" "w \<le> 2 * M_PI_dbl"
  shows "sub_dbl w M_PI_dbl = Some (rnd (w - M_PI_dbl))" "\<bar>rnd (w - M_PI_dbl)\<bar> \<le> M_PI_dbl"
proof -
  have "\<bar>w - M_PI_dbl\<bar> \<le> M_PI_dbl" using assms by simp
  then show r: "\<bar>rnd (w - M_PI_dbl)\<bar> \<le> M_PI_dbl" by (rule rnd_in_half_turn)
  then have "\<bar>rnd (w - M_PI_dbl)\<bar> \<le> DBL_MAX" using DBL_MAX_big M_PI_dbl_bounds by simp
  then show "sub_dbl w M_PI_dbl = Some (rnd (w - M_PI_dbl))"
    unfolding sub_dbl_def by (rule toDouble_SomeI)
qed

lemma constrainAngle_dbl_range:
  assumes "\<bar>x\<bar> \<le> DBL_MAX"
  shows "\<exists>r. constrainAngle_dbl x = Some r \<and> \<bar>r\<bar> \<le> M_PI_dbl"
proof -
  have "\<bar>rnd (x + M_PI_dbl)\<bar> \<le> DBL_MAX"
    using assms M_PI_dbl_bounds by (intro rnd_no_overflow) simp_all
  then have a: "add_dbl x M_PI_dbl = Some (rnd (x + M_PI_dbl))"
    unfolding add_dbl_def by (rule toDouble_SomeI)
  obtain w where w: "wrap_dbl (fmod (rnd (x + M_PI_dbl)) (2 * M_PI_dbl)) = Some w"
      "0 \<le> w" "w \<le> 2 * M_PI_dbl"
    using wrap_dbl_range [of "rnd (x + M_PI_dbl)"] by blast
  have "constrainAngle_dbl x = Some (rnd (w - M_PI_dbl))"
    using sub_M_PI_dbl_range(1) [OF w(2,3)] by (simp add: constrainAngle_dbl_def a w(1))
  then show ?thesis using sub_M_PI_dbl_range(2) [OF w(2,3)] by simp
qed

subsection \<open>The remainder does not round\<close>

lemma fmod_sign:
  assumes "0 < y"
  shows "\<bar>fmod x y\<bar> \<le> \<bar>x\<bar>" and "\<bar>fmod x y\<bar> < y"
proof -
  define q where "q = x / y"
  have x: "x = q * y" using assms by (simp add: q_def)
  have f: "fmod x y = (q - of_int (trunc q)) * y"
    unfolding fmod_def q_def [symmetric] by (simp add: x algebra_simps)
  have "\<bar>fmod x y\<bar> \<le> \<bar>x\<bar> \<and> \<bar>fmod x y\<bar> < y"
  proof (cases "0 \<le> q")
    case True
    then have t: "trunc q = \<lfloor>q\<rfloor>" by (simp add: trunc_def)
    have fl: "0 \<le> \<lfloor>q\<rfloor>" using True by simp
    have a: "0 \<le> q - of_int \<lfloor>q\<rfloor>" "q - of_int \<lfloor>q\<rfloor> < 1" "q - of_int \<lfloor>q\<rfloor> \<le> q"
      using fl by linarith+
    have "0 \<le> fmod x y" unfolding f t using a(1) assms by simp
    moreover have "fmod x y < 1 * y" unfolding f t using a(2) assms
      by (intro mult_strict_right_mono) simp_all
    moreover have "(q - of_int \<lfloor>q\<rfloor>) * y \<le> q * y" using a(3) assms
      by (intro mult_right_mono) simp_all
    then have "fmod x y \<le> x" unfolding f t using x by simp
    moreover have "0 \<le> q * y" using True assms by simp
    then have "0 \<le> x" using x by simp
    ultimately show ?thesis by simp
  next
    case False
    then have t: "trunc q = \<lceil>q\<rceil>" by (simp add: trunc_def)
    have cl: "\<lceil>q\<rceil> \<le> 0" using False by (simp add: ceiling_le_iff)
    have a: "q - of_int \<lceil>q\<rceil> \<le> 0" "- 1 < q - of_int \<lceil>q\<rceil>" "q \<le> q - of_int \<lceil>q\<rceil>"
      using cl by linarith+
    have "fmod x y \<le> 0" unfolding f t using a(1) assms by (simp add: mult_le_0_iff)
    moreover have "(- 1) * y < fmod x y" unfolding f t using a(2) assms
      by (intro mult_strict_right_mono) simp_all
    moreover have "q * y \<le> (q - of_int \<lceil>q\<rceil>) * y" using a(3) assms
      by (intro mult_right_mono) simp_all
    then have "x \<le> fmod x y" unfolding f t using x by simp
    moreover have "q * y \<le> 0" using False assms by (simp add: mult_le_0_iff)
    then have "x \<le> 0" using x by simp
    ultimately show ?thesis by simp
  qed
  then show "\<bar>fmod x y\<bar> \<le> \<bar>x\<bar>" and "\<bar>fmod x y\<bar> < y" by simp_all
qed

text \<open>The remainder of a double by \<open>2*M_PI\<close> is a double: \<open>fmod\<close> is exact.\<close>

lemma fmod_fixed:
  assumes "rnd t = t"
  shows "rnd (fmod t (2 * M_PI_dbl)) = fmod t (2 * M_PI_dbl)"
proof -
  let ?T = "2 * M_PI_dbl" and ?f = "fmod t (2 * M_PI_dbl)"
  have T: "0 < ?T" using M_PI_dbl_bounds by simp
  note s = fmod_sign [OF T, of t]
  have u1: "ulpExp ?f \<le> ulpExp t" using s(1) by (rule ulpExp_mono)
  have "\<bar>?f\<bar> < 2 powi 3" using s(2) M_PI_dbl_bounds by simp
  then have u2: "ulpExp ?f \<le> - 47" using ulpExp_le [of ?f 3] by simp
  have "grid (ulpExp t) t" using grid_rnd [of t] assms by simp
  then have g1: "grid (ulpExp ?f) t" using u1 by (rule grid_mono)
  have g2: "grid (ulpExp ?f) ?T" using grid_two_M_PI_dbl u2 by (rule grid_mono)
  have "grid (ulpExp ?f) (t - of_int (trunc (t / ?T)) * ?T)"
    by (intro grid_diff grid_mult_int g1 g2)
  then have "grid (ulpExp ?f) ?f" by (simp only: fmod_def)
  then show ?thesis by (rule rnd_exact)
qed

lemma toDouble_Some_rnd: "toDouble x = Some r \<Longrightarrow> r = rnd x"
  by (simp add: toDouble_def split: if_splits)

lemma wrap_dbl_shape:
  assumes "rnd t = t"
  shows "\<exists>w. wrap_dbl (fmod t (2 * M_PI_dbl)) = Some w \<and> rnd w = w \<and> 0 \<le> w \<and> w \<le> 2 * M_PI_dbl"
proof -
  obtain w where w: "wrap_dbl (fmod t (2 * M_PI_dbl)) = Some w" "0 \<le> w" "w \<le> 2 * M_PI_dbl"
    using wrap_dbl_range [of t] by blast
  have "rnd w = w"
  proof (cases "fmod t (2 * M_PI_dbl) < 0")
    case True
    with w(1) have "w = rnd (fmod t (2 * M_PI_dbl) + 2 * M_PI_dbl)"
      by (simp add: wrap_dbl_def add_dbl_def toDouble_Some_rnd)
    then show ?thesis by (simp add: rnd_rnd)
  next
    case False
    with w(1) have "w = fmod t (2 * M_PI_dbl)" by (simp add: wrap_dbl_def)
    then show ?thesis using fmod_fixed [OF assms] by simp
  qed
  with w show ?thesis by blast
qed

lemma constrainAngle_dbl_shape:
  assumes "constrainAngle_dbl x = Some r"
  shows "\<exists>w. rnd w = w \<and> 0 \<le> w \<and> w \<le> 2 * M_PI_dbl \<and> r = rnd (w - M_PI_dbl)"
proof -
  from assms obtain t where t: "add_dbl x M_PI_dbl = Some t"
    by (auto simp: constrainAngle_dbl_def split: Option.bind_splits)
  then have "t = rnd (x + M_PI_dbl)" by (simp add: add_dbl_def toDouble_Some_rnd)
  then have "rnd t = t" by (simp add: rnd_rnd)
  then obtain w where w: "wrap_dbl (fmod t (2 * M_PI_dbl)) = Some w" "rnd w = w"
      "0 \<le> w" "w \<le> 2 * M_PI_dbl"
    using wrap_dbl_shape [of t] by blast
  have "sub_dbl w M_PI_dbl = Some r"
    using assms by (simp add: constrainAngle_dbl_def t w(1))
  then have "r = rnd (w - M_PI_dbl)" by (simp add: sub_dbl_def toDouble_Some_rnd)
  with w show ?thesis by blast
qed

lemma constrainAngle_dbl_bound:
  assumes "constrainAngle_dbl x = Some r"
  shows "\<bar>r\<bar> \<le> M_PI_dbl" and "rnd r = r"
proof -
  obtain w where w: "0 \<le> w" "w \<le> 2 * M_PI_dbl" "r = rnd (w - M_PI_dbl)"
    using constrainAngle_dbl_shape [OF assms] by blast
  show "\<bar>r\<bar> \<le> M_PI_dbl" using sub_M_PI_dbl_range(2) [OF w(1,2)] w(3) by simp
  show "rnd r = r" using w(3) by (simp add: rnd_rnd)
qed

lemma constrainAngle_dbl_finite:
  assumes "\<bar>x\<bar> \<le> DBL_MAX"
  shows "\<exists>r. constrainAngle_dbl x = Some r"
  using constrainAngle_dbl_range [OF assms] by blast



subsection \<open>A second normalisation\<close>

text \<open>
  The last step of \<open>constrainAngle\<close> subtracts \<open>M_PI\<close> from a double \<open>w\<close> between \<open>0\<close>
  and \<open>2*M_PI\<close>. Adding \<open>M_PI\<close> back to the rounded result is exact: from \<open>2\<close> on,
  \<open>w\<close> lies on the grid of \<open>2^-51\<close> and the subtraction itself is exact; below \<open>2\<close>
  the result lies on the grid of \<open>2^-52\<close> and the sum is below \<open>2\<close>.
\<close>

lemma small_finite: "\<bar>x\<bar> \<le> 2 * M_PI_dbl \<Longrightarrow> \<bar>x\<bar> \<le> DBL_MAX"
  using DBL_MAX_big M_PI_dbl_bounds by simp

lemma add_back_exact:
  assumes "rnd w = w" "0 \<le> w" "w \<le> 2 * M_PI_dbl"
  defines "r \<equiv> rnd (w - M_PI_dbl)"
  shows "rnd (r + M_PI_dbl) = r + M_PI_dbl" and "0 \<le> r + M_PI_dbl" and "r + M_PI_dbl \<le> 2 * M_PI_dbl"
proof -
  have rb: "\<bar>r\<bar> \<le> M_PI_dbl"
    using sub_M_PI_dbl_range(2) [OF assms(2,3)] by (simp add: r_def)
  then show "0 \<le> r + M_PI_dbl" and "r + M_PI_dbl \<le> 2 * M_PI_dbl" by simp_all
  show "rnd (r + M_PI_dbl) = r + M_PI_dbl"
  proof (cases "2 \<le> w")
    case True
    then have "2 powi 1 \<le> \<bar>w\<bar>" by simp
    then have "- 51 \<le> ulpExp w" using ulpExp_ge_binade [of 1 w] by simp
    moreover have "grid (ulpExp w) w" using grid_rnd [of w] assms(1) by simp
    ultimately have "grid (- 51) w" by (rule grid_mono [rotated])
    moreover have "grid (- 51) M_PI_dbl" using grid_M_PI_dbl by (rule grid_mono) simp
    ultimately have "grid (- 51) (w - M_PI_dbl)" by (rule grid_diff)
    moreover have "\<bar>w - M_PI_dbl\<bar> < 2 powi (- 51 + 53)"
      using assms(2,3) M_PI_dbl_bounds by simp
    ultimately have "rnd (w - M_PI_dbl) = w - M_PI_dbl" by (rule rnd_exactI) simp
    then show ?thesis using assms(1) by (simp add: r_def)
  next
    case False
    define z where "z = w - M_PI_dbl"
    have z: "- M_PI_dbl \<le> z" "z \<le> 2 - M_PI_dbl" using assms(2) False by (simp_all add: z_def)
    have "2 powi 0 \<le> \<bar>z\<bar>" using z M_PI_dbl_bounds by simp
    then have lo: "- 52 \<le> ulpExp z" using ulpExp_ge_binade [of 0 z] by simp
    have "\<bar>z\<bar> < 2 powi 2" using z M_PI_dbl_bounds by simp
    then have hi: "ulpExp z \<le> - 48" using ulpExp_le [of z 2] by simp
    have gM: "grid (ulpExp z) M_PI_dbl" using grid_M_PI_dbl hi by (rule grid_mono)
    have g2: "grid (ulpExp z) 2"
      using grid_powi [of "ulpExp z" 1] hi by simp
    have "rnd z \<le> 2 - M_PI_dbl" using z(2) by (intro rnd_le grid_diff g2 gM)
    then have le2: "r + M_PI_dbl \<le> 2" by (simp add: r_def z_def)
    have "grid (ulpExp z) (rnd z)" by (rule grid_rnd)
    then have "grid (- 52) r" unfolding r_def z_def [symmetric] using lo by (rule grid_mono)
    moreover have "grid (- 52) M_PI_dbl" using grid_M_PI_dbl by (rule grid_mono) simp
    ultimately have g: "grid (- 52) (r + M_PI_dbl)" by (rule grid_add)
    show ?thesis
    proof (cases "r + M_PI_dbl = 2")
      case True
      have "rnd 2 = 2"
        by (rule rnd_exactI [of 0]) (simp_all add: grid_def)
      then show ?thesis by (simp only: True)
    next
      case False
      with le2 rb have "\<bar>r + M_PI_dbl\<bar> < 2 powi (- 52 + 53)" by simp
      with g show ?thesis by (rule rnd_exactI) simp
    qed
  qed
qed

lemma constrainAngle_dbl_again:
  assumes "constrainAngle_dbl x = Some r" "r \<noteq> M_PI_dbl"
  shows "constrainAngle_dbl r = Some r"
proof -
  obtain w where w: "rnd w = w" "0 \<le> w" "w \<le> 2 * M_PI_dbl" "r = rnd (w - M_PI_dbl)"
    using constrainAngle_dbl_shape [OF assms(1)] by blast
  note e = add_back_exact [OF w(1-3), folded w(4)]
  note b = constrainAngle_dbl_bound [OF assms(1)]
  have "\<bar>r + M_PI_dbl\<bar> \<le> DBL_MAX" using e(2,3) by (intro small_finite) simp
  then have a: "add_dbl r M_PI_dbl = Some (r + M_PI_dbl)"
    by (simp add: add_dbl_def toDouble_def e(1))
  have lt: "r + M_PI_dbl < 2 * M_PI_dbl" using b(1) assms(2) by simp
  then have f: "fmod (r + M_PI_dbl) (2 * M_PI_dbl) = r + M_PI_dbl"
    using e(2) M_PI_dbl_bounds by (intro fmod_small) simp_all
  have wr: "wrap_dbl (r + M_PI_dbl) = Some (r + M_PI_dbl)"
    using e(2) by (simp add: wrap_dbl_def)
  have "\<bar>r\<bar> \<le> DBL_MAX" using b(1) M_PI_dbl_bounds by (intro small_finite) simp
  then have s: "sub_dbl (r + M_PI_dbl) M_PI_dbl = Some r"
    by (simp add: sub_dbl_def toDouble_def b(2))
  show ?thesis by (simp add: constrainAngle_dbl_def a f wr s)
qed

subsection \<open>Sample runs\<close>

text \<open>
  The runs below go through the helpers one operation at a time; every number is written
  as the fraction it is.
\<close>

lemma ev_add_1: "add_dbl (- (7074237752028441 / 2251799813685248)) M_PI_dbl = Some (- (1 / 2251799813685248))"
  unfolding add_dbl_def M_PI_dbl_def
  using toDouble_near [of "- 51" "(- (7074237752028441 / 2251799813685248)) + (884279719003555 / 281474976710656)" "- 4503599627370496"]
  by simp

lemma ev_fmod_2: "fmod (- (1 / 2251799813685248)) (2 * M_PI_dbl) = (- (1 / 2251799813685248))"
  using fmod_neg_eval [of "2 * M_PI_dbl" "- (1 / 2251799813685248)" 0]
  by (simp add: M_PI_dbl_def)

lemma ev_add_3: "add_dbl (- (1 / 2251799813685248)) (2 * M_PI_dbl) = Some (884279719003555 / 140737488355328)"
  unfolding add_dbl_def M_PI_dbl_def
  using toDouble_tie [of 2 "(- (1 / 2251799813685248)) + (2 * (884279719003555 / 281474976710656))" 7074237752028439]
  by simp

lemma ev_wrap_4: "wrap_dbl (- (1 / 2251799813685248)) = Some (884279719003555 / 140737488355328)"
  by (simp add: wrap_dbl_def ev_add_3)

lemma ev_sub_5: "sub_dbl (884279719003555 / 140737488355328) M_PI_dbl = Some (884279719003555 / 281474976710656)"
  unfolding sub_dbl_def M_PI_dbl_def
  using toDouble_near [of 1 "(884279719003555 / 140737488355328) - (884279719003555 / 281474976710656)" 7074237752028440]
  by simp

lemma constrainAngle_dbl_below_minus_M_PI: "constrainAngle_dbl (- (7074237752028441 / 2251799813685248)) = Some (884279719003555 / 281474976710656)"
  by (simp only: constrainAngle_dbl_def ev_add_1 ev_fmod_2 ev_wrap_4 ev_sub_5 Option.bind.simps)

lemma ev_add_6: "add_dbl (884279719003555 / 281474976710656) M_PI_dbl = Some (884279719003555 / 140737488355328)"
  unfolding add_dbl_def M_PI_dbl_def
  using toDouble_near [of 2 "(884279719003555 / 281474976710656) + (884279719003555 / 281474976710656)" 7074237752028440]
  by simp

lemma ev_fmod_7: "fmod (884279719003555 / 140737488355328) (2 * M_PI_dbl) = 0"
  using fmod_nonneg_eval [of "2 * M_PI_dbl" 1 "884279719003555 / 140737488355328"]
  by (simp add: M_PI_dbl_def)

lemma ev_wrap_8: "wrap_dbl 0 = Some 0"
  by (simp add: wrap_dbl_def )

lemma ev_sub_9: "sub_dbl 0 M_PI_dbl = Some (- (884279719003555 / 281474976710656))"
  unfolding sub_dbl_def M_PI_dbl_def
  using toDouble_near [of 1 "0 - (884279719003555 / 281474976710656)" "- 7074237752028440"]
  by simp

lemma constrainAngle_dbl_at_M_PI: "constrainAngle_dbl (884279719003555 / 281474976710656) = Some (- (884279719003555 / 281474976710656))"
  by (simp only: constrainAngle_dbl_def ev_add_6 ev_fmod_7 ev_wrap_8 ev_sub_9 Option.bind.simps)

lemma ev_add_10: "add_dbl (- (884279719003555 / 281474976710656)) M_PI_dbl = Some 0"
  unfolding add_dbl_def M_PI_dbl_def by (simp add: toDouble_zero)

lemma ev_fmod_11: "fmod 0 (2 * M_PI_dbl) = 0"
  using fmod_nonneg_eval [of "2 * M_PI_dbl" 0 "0"]
  by (simp add: M_PI_dbl_def)

lemma constrainAngle_dbl_at_minus_M_PI: "constrainAngle_dbl (- (884279719003555 / 281474976710656)) = Some (- (884279719003555 / 281474976710656))"
  by (simp only: constrainAngle_dbl_def ev_add_10 ev_fmod_11 ev_wrap_8 ev_sub_9 Option.bind.simps)




































lemma ev_add_44: "add_dbl 3 M_PI_dbl = Some (1728704649135523 / 281474976710656)"
  unfolding add_dbl_def M_PI_dbl_def
  using toDouble_near [of 2 "3 + (884279719003555 / 281474976710656)" 6914818596542092]
  by simp

lemma ev_fmod_45: "fmod (1728704649135523 / 281474976710656) (2 * M_PI_dbl) = (1728704649135523 / 281474976710656)"
  using fmod_nonneg_eval [of "2 * M_PI_dbl" 0 "1728704649135523 / 281474976710656"]
  by (simp add: M_PI_dbl_def)

lemma ev_wrap_46: "wrap_dbl (1728704649135523 / 281474976710656) = Some (1728704649135523 / 281474976710656)"
  by (simp add: wrap_dbl_def )

lemma ev_sub_47: "sub_dbl (1728704649135523 / 281474976710656) M_PI_dbl = Some 3"
  unfolding sub_dbl_def M_PI_dbl_def
  using toDouble_near [of 1 "(1728704649135523 / 281474976710656) - (884279719003555 / 281474976710656)" 6755399441055744]
  by simp

lemma ev_constrainAngle_48: "constrainAngle_dbl 3 = Some 3"
  by (simp only: constrainAngle_dbl_def ev_add_44 ev_fmod_45 ev_wrap_46 ev_sub_47 Option.bind.simps)

lemma ev_fmod_49: "fmod 3 (2 * M_PI_dbl) = 3"
  using fmod_nonneg_eval [of "2 * M_PI_dbl" 0 "3"]
  by (simp add: M_PI_dbl_def)

lemma ev_angleConv_50: "angleConv_dbl 3 = Some 3"
  by (simp only: angleConv_dbl_def ev_constrainAngle_48 ev_fmod_49 Option.bind.simps)

lemma ev_sub_51: "sub_dbl 3 (- (6980579422424269 / 2251799813685248)) = Some (3433994715870003 / 562949953421312)"
  unfolding sub_dbl_def M_PI_dbl_def
  using toDouble_tie [of 2 "3 - (- (6980579422424269 / 2251799813685248))" 6867989431740006]
  by simp

lemma ev_add_52: "add_dbl (3433994715870003 / 562949953421312) M_PI_dbl = Some (5202554153877113 / 562949953421312)"
  unfolding add_dbl_def M_PI_dbl_def
  using toDouble_near [of 3 "(3433994715870003 / 562949953421312) + (884279719003555 / 281474976710656)" 5202554153877113]
  by simp

lemma ev_fmod_53: "fmod (5202554153877113 / 562949953421312) (2 * M_PI_dbl) = (1665435277862893 / 562949953421312)"
  using fmod_nonneg_eval [of "2 * M_PI_dbl" 1 "5202554153877113 / 562949953421312"]
  by (simp add: M_PI_dbl_def)

lemma ev_wrap_54: "wrap_dbl (1665435277862893 / 562949953421312) = Some (1665435277862893 / 562949953421312)"
  by (simp add: wrap_dbl_def )

lemma ev_sub_55: "sub_dbl (1665435277862893 / 562949953421312) M_PI_dbl = Some (- (103124160144217 / 562949953421312))"
  unfolding sub_dbl_def M_PI_dbl_def
  using toDouble_near [of "- 3" "(1665435277862893 / 562949953421312) - (884279719003555 / 281474976710656)" "- 6599946249229888"]
  by simp

lemma ev_angleDiff_56: "angleDiff_dbl (- (6980579422424269 / 2251799813685248)) 3 = Some (- (103124160144217 / 562949953421312))"
  by (simp only: angleDiff_dbl_def ev_sub_51 ev_add_52 ev_fmod_53 ev_wrap_54 ev_sub_55 Option.bind.simps)

lemma ev_sub_57: "sub_dbl 3 (- (103124160144217 / 562949953421312)) = Some (1791974020408153 / 562949953421312)"
  unfolding sub_dbl_def M_PI_dbl_def
  using toDouble_near [of 1 "3 - (- (103124160144217 / 562949953421312))" 7167896081632612]
  by simp

lemma unwrap_dbl_across_wrap: "unwrap_dbl 3 (- (6980579422424269 / 2251799813685248)) = Some (1791974020408153 / 562949953421312)"
  by (simp only: unwrap_dbl_def ev_angleConv_50 ev_angleDiff_56 ev_sub_57 Option.bind.simps)

lemma ev_add_58: "add_dbl (1791974020408153 / 562949953421312) M_PI_dbl = Some (3560533458415263 / 562949953421312)"
  unfolding add_dbl_def M_PI_dbl_def
  using toDouble_near [of 2 "(1791974020408153 / 562949953421312) + (884279719003555 / 281474976710656)" 7121066916830526]
  by simp

lemma ev_fmod_59: "fmod (3560533458415263 / 562949953421312) (2 * M_PI_dbl) = (23414582401043 / 562949953421312)"
  using fmod_nonneg_eval [of "2 * M_PI_dbl" 1 "3560533458415263 / 562949953421312"]
  by (simp add: M_PI_dbl_def)

lemma ev_wrap_60: "wrap_dbl (23414582401043 / 562949953421312) = Some (23414582401043 / 562949953421312)"
  by (simp add: wrap_dbl_def )

lemma ev_sub_61: "sub_dbl (23414582401043 / 562949953421312) M_PI_dbl = Some (- (1745144855606067 / 562949953421312))"
  unfolding sub_dbl_def M_PI_dbl_def
  using toDouble_near [of 1 "(23414582401043 / 562949953421312) - (884279719003555 / 281474976710656)" "- 6980579422424268"]
  by simp

lemma ev_constrainAngle_62: "constrainAngle_dbl (1791974020408153 / 562949953421312) = Some (- (1745144855606067 / 562949953421312))"
  by (simp only: constrainAngle_dbl_def ev_add_58 ev_fmod_59 ev_wrap_60 ev_sub_61 Option.bind.simps)

lemma ev_fmod_63: "fmod (- (1745144855606067 / 562949953421312)) (2 * M_PI_dbl) = (- (1745144855606067 / 562949953421312))"
  using fmod_neg_eval [of "2 * M_PI_dbl" "- (1745144855606067 / 562949953421312)" 0]
  by (simp add: M_PI_dbl_def)

lemma ev_angleConv_64: "angleConv_dbl (1791974020408153 / 562949953421312) = Some (- (1745144855606067 / 562949953421312))"
  by (simp only: angleConv_dbl_def ev_constrainAngle_62 ev_fmod_63 Option.bind.simps)

lemma ev_sub_65: "sub_dbl (- (1745144855606067 / 562949953421312)) 3 = Some (- (3433994715870003 / 562949953421312))"
  unfolding sub_dbl_def M_PI_dbl_def
  using toDouble_near [of 2 "(- (1745144855606067 / 562949953421312)) - 3" "- 6867989431740006"]
  by simp

lemma ev_add_66: "add_dbl (- (3433994715870003 / 562949953421312)) M_PI_dbl = Some (- (1665435277862893 / 562949953421312))"
  unfolding add_dbl_def M_PI_dbl_def
  using toDouble_near [of 1 "(- (3433994715870003 / 562949953421312)) + (884279719003555 / 281474976710656)" "- 6661741111451572"]
  by simp

lemma ev_fmod_67: "fmod (- (1665435277862893 / 562949953421312)) (2 * M_PI_dbl) = (- (1665435277862893 / 562949953421312))"
  using fmod_neg_eval [of "2 * M_PI_dbl" "- (1665435277862893 / 562949953421312)" 0]
  by (simp add: M_PI_dbl_def)

lemma ev_add_68: "add_dbl (- (1665435277862893 / 562949953421312)) (2 * M_PI_dbl) = Some (1871683598151327 / 562949953421312)"
  unfolding add_dbl_def M_PI_dbl_def
  using toDouble_near [of 1 "(- (1665435277862893 / 562949953421312)) + (2 * (884279719003555 / 281474976710656))" 7486734392605308]
  by simp

lemma ev_wrap_69: "wrap_dbl (- (1665435277862893 / 562949953421312)) = Some (1871683598151327 / 562949953421312)"
  by (simp add: wrap_dbl_def ev_add_68)

lemma ev_sub_70: "sub_dbl (1871683598151327 / 562949953421312) M_PI_dbl = Some (103124160144217 / 562949953421312)"
  unfolding sub_dbl_def M_PI_dbl_def
  using toDouble_near [of "- 3" "(1871683598151327 / 562949953421312) - (884279719003555 / 281474976710656)" 6599946249229888]
  by simp

lemma ev_angleDiff_71: "angleDiff_dbl 3 (- (1745144855606067 / 562949953421312)) = Some (103124160144217 / 562949953421312)"
  by (simp only: angleDiff_dbl_def ev_sub_65 ev_add_66 ev_fmod_67 ev_wrap_69 ev_sub_70 Option.bind.simps)

lemma ev_sub_72: "sub_dbl (1791974020408153 / 562949953421312) (103124160144217 / 562949953421312) = Some 3"
  unfolding sub_dbl_def M_PI_dbl_def
  using toDouble_near [of 1 "(1791974020408153 / 562949953421312) - (103124160144217 / 562949953421312)" 6755399441055744]
  by simp

lemma unwrap_dbl_back: "unwrap_dbl (1791974020408153 / 562949953421312) 3 = Some 3"
  by (simp only: unwrap_dbl_def ev_angleConv_64 ev_angleDiff_71 ev_sub_72 Option.bind.simps)

lemma constrainAngle_dbl_M_PI: "constrainAngle_dbl M_PI_dbl = Some (- M_PI_dbl)"
  unfolding M_PI_dbl_def by (rule constrainAngle_dbl_at_M_PI)

lemma constrainAngle_dbl_minus_M_PI: "constrainAngle_dbl (- M_PI_dbl) = Some (- M_PI_dbl)"
  unfolding M_PI_dbl_def by (rule constrainAngle_dbl_at_minus_M_PI)

lemma constrainAngle_dbl_reaches_M_PI:
  "constrainAngle_dbl (- (7074237752028441 / 2251799813685248)) = Some M_PI_dbl"
  unfolding M_PI_dbl_def by (rule constrainAngle_dbl_below_minus_M_PI)

lemma isDouble_bound: "isDouble x \<Longrightarrow> \<bar>x\<bar> \<le> DBL_MAX"
  by (simp add: isDouble_def)

lemma isDouble_M_PI_dbl: "isDouble M_PI_dbl" "isDouble (- M_PI_dbl)"
  by (rule isDoubleI [of "- 48"]; simp add: grid_def M_PI_dbl_def)+




subsection \<open>\<open>M_PI\<close> lies below \<open>\<pi>\<close>\<close>

text \<open>
  The sine of a sixth of \<open>M_PI\<close> is below one half, by its Maclaurin polynomial of
  degree 15, and the sine is increasing up to a quarter turn.
\<close>

lemma sin_sixth_less_half: "sin (M_PI_dbl / 6) < 1 / 2"
proof -
  define x :: real where "x = 884279719003555 / 1688849860263936"
  have x: "M_PI_dbl / 6 = x" by (simp add: M_PI_dbl_def x_def)
  have b: "\<bar>sin x - (\<Sum>m<17. sin_coeff m * x ^ m)\<bar> \<le> inverse (fact 17) * \<bar>x\<bar> ^ 17"
    by (rule Maclaurin_sin_bound)
  have s: "(\<Sum>m<17. sin_coeff m * x ^ m) + inverse (fact 17) * \<bar>x\<bar> ^ 17 < 1 / 2"
    unfolding sin_coeff_sum_17 x_def by (simp add: fact_numeral power_divide)
  from b s show ?thesis unfolding x by linarith
qed

lemma M_PI_dbl_less_pi: "M_PI_dbl < pi"
proof -
  have "sin (M_PI_dbl / 6) < sin (pi / 6)" using sin_sixth_less_half by (simp add: sin_30)
  moreover have "0 \<le> M_PI_dbl / 6" "M_PI_dbl / 6 \<le> 1" by (simp_all add: M_PI_dbl_def)
  moreover have "1 \<le> pi / 2" using pi_ge_two by simp
  ultimately have "M_PI_dbl / 6 < pi / 6"
    using sin_mono_less_eq [of "M_PI_dbl / 6" "pi / 6"] by simp
  then show ?thesis by simp
qed

lemma within_pi:
  assumes "\<bar>r\<bar> \<le> M_PI_dbl"
  shows "- pi < r" and "r \<le> pi"
  using assms M_PI_dbl_less_pi by simp_all

section \<open>The claims about the angle arithmetic, in double precision\<close>

text \<open>
  Claim C2. For every finite input angle, \<open>normalize\<close> (\<open>constrainAngle\<close>) returns a finite
  value that is strictly greater than \<open>-\<pi>\<close> and at most \<open>\<pi>\<close>. More precisely the value
  lies between \<open>-M_PI\<close> and \<open>M_PI\<close>, both included and both attained, and \<open>M_PI\<close> is
  below \<open>\<pi>\<close>.
\<close>

theorem constrainAngle_dbl_in_range:
  assumes "isDouble x"
  shows "\<exists>r. constrainAngle_dbl x = Some r \<and> - pi < r \<and> r \<le> pi
           \<and> - M_PI_dbl \<le> r \<and> r \<le> M_PI_dbl"
proof -
  obtain r where r: "constrainAngle_dbl x = Some r"
    using constrainAngle_dbl_finite [OF isDouble_bound [OF assms]] by blast
  have b: "\<bar>r\<bar> \<le> M_PI_dbl" using r by (rule constrainAngle_dbl_bound)
  show ?thesis using r b within_pi [OF b] by (auto simp: abs_le_iff)
qed

theorem constrainAngle_dbl_in_range_witness:
  "isDouble (- M_PI_dbl) \<and> constrainAngle_dbl (- M_PI_dbl) = Some (- M_PI_dbl)
     \<and> - pi < - M_PI_dbl \<and> - M_PI_dbl \<le> pi"
  using constrainAngle_dbl_in_range [OF isDouble_M_PI_dbl(2)] isDouble_M_PI_dbl(2)
  by (auto simp: constrainAngle_dbl_minus_M_PI)

text \<open>
  Claim C3, as the spec states it: \<open>normalize(normalize(x))\<close> equals \<open>normalize(x)\<close> for
  every finite \<open>x\<close>. It fails at the double just below \<open>-M_PI\<close>, which is
  \<open>-M_PI - 2^-51\<close>: there \<open>x + M_PI\<close> is \<open>-2^-51\<close>, the sum \<open>-2^-51 + 2*M_PI\<close> is a tie
  and rounds to \<open>2*M_PI\<close>, and the function returns \<open>M_PI\<close>; applied to \<open>M_PI\<close> it returns
  \<open>-M_PI\<close>.
\<close>

theorem constrainAngle_dbl_idempotent_counterexample:
  "isDouble (- (7074237752028441 / 2251799813685248)) \<and>
   constrainAngle_dbl (- (7074237752028441 / 2251799813685248)) = Some M_PI_dbl \<and>
   constrainAngle_dbl M_PI_dbl = Some (- M_PI_dbl) \<and>
   Option.bind (constrainAngle_dbl (- (7074237752028441 / 2251799813685248))) constrainAngle_dbl
     \<noteq> constrainAngle_dbl (- (7074237752028441 / 2251799813685248))"
proof -
  have d: "isDouble (- (7074237752028441 / 2251799813685248))"
    by (rule isDoubleI [of "- 51"]) (simp_all add: grid_def)
  note a = constrainAngle_dbl_reaches_M_PI and b = constrainAngle_dbl_M_PI
  have "M_PI_dbl \<noteq> - M_PI_dbl" by (simp add: M_PI_dbl_def)
  then show ?thesis using d by (simp add: a b)
qed

text \<open>
  Claim C3, amended: for every finite \<open>x\<close>, \<open>normalize(normalize(x))\<close> equals
  \<open>normalize(x)\<close> unless \<open>normalize(x)\<close> is \<open>M_PI\<close>, and in that case it is \<open>-M_PI\<close>.
\<close>

theorem constrainAngle_dbl_idempotent_below_M_PI:
  assumes "isDouble x"
  shows "\<exists>r. constrainAngle_dbl x = Some r \<and>
           constrainAngle_dbl r = Some (if r = M_PI_dbl then - M_PI_dbl else r)"
proof -
  obtain r where r: "constrainAngle_dbl x = Some r"
    using constrainAngle_dbl_finite [OF isDouble_bound [OF assms]] by blast
  have "constrainAngle_dbl r = Some (if r = M_PI_dbl then - M_PI_dbl else r)"
  proof (cases "r = M_PI_dbl")
    case True
    then show ?thesis by (simp add: constrainAngle_dbl_M_PI)
  next
    case False
    with r show ?thesis by (simp add: constrainAngle_dbl_again)
  qed
  with r show ?thesis by simp
qed

theorem constrainAngle_dbl_idempotent_below_M_PI_witness:
  "isDouble M_PI_dbl \<and> constrainAngle_dbl M_PI_dbl = Some (- M_PI_dbl) \<and>
   constrainAngle_dbl (- M_PI_dbl) = Some (- M_PI_dbl)"
  using constrainAngle_dbl_idempotent_below_M_PI [OF isDouble_M_PI_dbl(1)] isDouble_M_PI_dbl(1)
  by (auto simp: constrainAngle_dbl_M_PI constrainAngle_dbl_minus_M_PI)







subsection \<open>The phase trace in double precision\<close>

text \<open>
  The trace of claim C5, run through the helpers in double precision: the samples are
  \<open>3\<close>, the double nearest to \<open>-3.1\<close>, and \<open>3\<close>, and the outputs are \<open>3\<close>, the double
  \<open>3.1831853071795866\<close> and \<open>3\<close> again, inside the bounds of the claim.
\<close>

lemma unwrap_dbl_phase_steps:
  "unwrap_dbl 3 (- (6980579422424269 / 2251799813685248))
     = Some (1791974020408153 / 562949953421312) \<and>
   unwrap_dbl (1791974020408153 / 562949953421312) 3 = Some 3 \<and>
   \<bar>1791974020408153 / 562949953421312 - 3\<bar> < 2 * pi * (1 / 10) \<and>
   \<bar>3 - 1791974020408153 / 562949953421312\<bar> < 2 * pi * (1 / 10) \<and>
   \<bar>1791974020408153 / 562949953421312 - 318 / 100 :: real\<bar> < 5 / 1000"
proof -
  have "\<bar>1791974020408153 / 562949953421312 - 3\<bar> < 2 * pi * (1 / 10)"
    using pi_ge_two by simp
  moreover have "\<bar>3 - 1791974020408153 / 562949953421312\<bar> < 2 * pi * (1 / 10)"
    using pi_ge_two by simp
  moreover have "\<bar>1791974020408153 / 562949953421312 - 318 / 100 :: real\<bar> < 5 / 1000"
    by simp
  ultimately show ?thesis
    using unwrap_dbl_across_wrap unwrap_dbl_back by (intro conjI)
qed

end
